theory Spec2Isabelle
  imports Main "HOL-Library.AList" "HOL-Library.Code_Target_Nat"
begin

section \<open>Strings\<close>

text \<open>
  A JavaScript string is a sequence of UTF-16 code units; a code unit is modelled as a
  natural number. \<open>asc\<close> turns the ASCII text of a literal of the source into code units.
\<close>

type_synonym jstring = "nat list"

definition asc :: "string \<Rightarrow> jstring" where
  "asc s = map of_char s"

text \<open>
  The white space of \<open>\s\<close> and of \<open>String.prototype.trim\<close>: the WhiteSpace and
  LineTerminator code points of ECMAScript (tab, line feed, vertical tab, form feed,
  carriage return, space, U+00A0, U+1680, U+2000 to U+200A, U+2028, U+2029, U+202F,
  U+205F, U+3000 and U+FEFF).
\<close>

definition is_space :: "nat \<Rightarrow> bool" where
  "is_space c \<longleftrightarrow>
     (9 \<le> c \<and> c \<le> 13) \<or> c = 32 \<or> c = 160 \<or> c = 5760 \<or> (8192 \<le> c \<and> c \<le> 8202) \<or>
     c = 8232 \<or> c = 8233 \<or> c = 8239 \<or> c = 8287 \<or> c = 12288 \<or> c = 65279"

text \<open>The class \<open>[a-zA-Z0-9_]\<close> of the validation schemas.\<close>

definition is_word :: "nat \<Rightarrow> bool" where
  "is_word c \<longleftrightarrow>
     (97 \<le> c \<and> c \<le> 122) \<or> (65 \<le> c \<and> c \<le> 90) \<or> (48 \<le> c \<and> c \<le> 57) \<or> c = 95"

definition trim :: "jstring \<Rightarrow> jstring" where
  "trim s = rev (dropWhile is_space (rev (dropWhile is_space s)))"

text \<open>
  \<open>String.prototype.toUpperCase\<close> reads the string as code points (a high surrogate
  followed by a low surrogate is one code point, any other code unit is one of its own)
  and replaces every code point by its upper-case mapping, whatever stands around it.
  The mapping of an ASCII code point is fixed: \<open>a..z\<close> become \<open>A..Z\<close> and the others stay. The
  mapping of the other code points is the table of the Unicode standard, which is not
  part of the repository: it is the parameter \<open>U\<close>, from the code units of a code point to
  the code units of its mapping (one code point may become several, as U+00DF becomes
  \<open>SS\<close>).
\<close>

definition ascii_upper :: "nat \<Rightarrow> nat" where
  "ascii_upper c = (if 97 \<le> c \<and> c \<le> 122 then c - 32 else c)"

definition is_high :: "nat \<Rightarrow> bool" where
  "is_high c \<longleftrightarrow> 55296 \<le> c \<and> c \<le> 56319"

definition is_low :: "nat \<Rightarrow> bool" where
  "is_low c \<longleftrightarrow> 56320 \<le> c \<and> c \<le> 57343"

fun code_points :: "jstring \<Rightarrow> jstring list" where
  "code_points [] = []"
| "code_points [c] = [[c]]"
| "code_points (c # d # cs) =
     (if is_high c \<and> is_low d then [c, d] # code_points cs else [c] # code_points (d # cs))"

definition upper_point :: "(jstring \<Rightarrow> jstring) \<Rightarrow> jstring \<Rightarrow> jstring" where
  "upper_point U p = (case p of [c] \<Rightarrow> if c < 128 then [ascii_upper c] else U p | _ \<Rightarrow> U p)"

definition toUpperCase :: "(jstring \<Rightarrow> jstring) \<Rightarrow> jstring \<Rightarrow> jstring" where
  "toUpperCase U s = concat (map (upper_point U) (code_points s))"

text \<open>
  \<open>String.prototype.toLowerCase\<close>. On a string of ASCII code units \<open>A..Z\<close> become \<open>a..z\<close>;
  on any other string the result is what the Unicode standard says, the parameter \<open>L\<close>.
\<close>

definition ascii_lower :: "nat \<Rightarrow> nat" where
  "ascii_lower c = (if 65 \<le> c \<and> c \<le> 90 then c + 32 else c)"

definition toLowerCase :: "(jstring \<Rightarrow> jstring) \<Rightarrow> jstring \<Rightarrow> jstring" where
  "toLowerCase L s = (if list_all (\<lambda>c. c < 128) s then map ascii_lower s else L s)"

text \<open>\<open>Array.prototype.join\<close> on strings.\<close>

fun join_with :: "jstring \<Rightarrow> jstring list \<Rightarrow> jstring" where
  "join_with sep [] = []"
| "join_with sep [x] = x"
| "join_with sep (x # y # ys) = x @ sep @ join_with sep (y # ys)"

section \<open>The regular expressions of the source\<close>

text \<open>
  Every regular expression literal of the repository is built from literal ASCII text,
  the repetitions \<open>\s*\<close>, \<open>\s+\<close> and \<open>[a-zA-Z0-9_]+\<close>, concatenation and alternation,
  and none has the \<open>u\<close> flag: it is matched against code units. The matcher \<open>rests\<close>
  returns, for a pattern and a text, the remainders of the text after every prefix the
  pattern matches, which is what a backtracking engine explores. With the flag \<open>i\<close> a
  code unit of the text matches an ASCII character of the pattern when both have the
  same canonical form; the canonical form of a code unit that is not ASCII is never an
  ASCII character, so only \<open>a..z\<close> and \<open>A..Z\<close> are matched across cases.
\<close>

datatype cclass = Space | Word

datatype rx =
    Lit string
  | Star cclass
  | Plus cclass
  | Seq rx rx
  | Alt rx rx

fun in_class :: "cclass \<Rightarrow> nat \<Rightarrow> bool" where
  "in_class Space c = is_space c"
| "in_class Word c = is_word c"

definition chr_eq :: "bool \<Rightarrow> char \<Rightarrow> nat \<Rightarrow> bool" where
  "chr_eq ci p c = (if ci then ascii_upper (of_char p) = ascii_upper c else of_char p = c)"

fun lit_rest :: "bool \<Rightarrow> string \<Rightarrow> jstring \<Rightarrow> jstring option" where
  "lit_rest ci [] s = Some s"
| "lit_rest ci (p # ps) [] = None"
| "lit_rest ci (p # ps) (c # cs) = (if chr_eq ci p c then lit_rest ci ps cs else None)"

fun star_rests :: "(nat \<Rightarrow> bool) \<Rightarrow> jstring \<Rightarrow> jstring list" where
  "star_rests P [] = [[]]"
| "star_rests P (c # cs) = (c # cs) # (if P c then star_rests P cs else [])"

fun rests :: "bool \<Rightarrow> rx \<Rightarrow> jstring \<Rightarrow> jstring list" where
  "rests ci (Lit l) s = (case lit_rest ci l s of None \<Rightarrow> [] | Some r \<Rightarrow> [r])"
| "rests ci (Star k) s = star_rests (in_class k) s"
| "rests ci (Plus k) s = tl (star_rests (in_class k) s)"
| "rests ci (Seq a b) s = concat (map (rests ci b) (rests ci a s))"
| "rests ci (Alt a b) s = rests ci a s @ rests ci b s"

fun tails :: "jstring \<Rightarrow> jstring list" where
  "tails [] = [[]]"
| "tails (c # cs) = (c # cs) # tails cs"

text \<open>\<open>pattern.test(s)\<close> for an unanchored pattern: a match may start anywhere.\<close>

definition rx_test :: "bool \<Rightarrow> rx \<Rightarrow> jstring \<Rightarrow> bool" where
  "rx_test ci r s = list_ex (\<lambda>t. rests ci r t \<noteq> []) (tails s)"

text \<open>A pattern written \<open>^...$\<close> (no \<open>m\<close> flag): the match is the whole text.\<close>

definition rx_full :: "bool \<Rightarrow> rx \<Rightarrow> jstring \<Rightarrow> bool" where
  "rx_full ci r s = ([] \<in> set (rests ci r s))"

section \<open>The query safety classifier (src/modules/tools.js, isSafeQuery)\<close>

definition kw_then_space :: "string \<Rightarrow> rx" where
  "kw_then_space w = Seq (Star Space) (Seq (Lit w) (Plus Space))"

definition kw2_then_space :: "string \<Rightarrow> string \<Rightarrow> rx" where
  "kw2_then_space a b =
     Seq (Star Space) (Seq (Lit a) (Seq (Plus Space) (Seq (Lit b) (Plus Space))))"

definition kw_call :: "string \<Rightarrow> rx" where
  "kw_call w =
     Seq (Star Space) (Seq (Lit w) (Alt (Plus Space) (Seq (Star Space) (Lit ''(''))))"

definition kw_bare :: "string \<Rightarrow> rx" where
  "kw_bare w = Seq (Star Space) (Lit w)"

definition kw_opt_space :: "string \<Rightarrow> rx" where
  "kw_opt_space w = Seq (Star Space) (Seq (Lit w) (Star Space))"

definition basePatterns :: "rx list" where
  "basePatterns =
     [kw_then_space ''DROP'',
      kw_then_space ''TRUNCATE'',
      kw2_then_space ''ALTER'' ''ROLE'',
      kw2_then_space ''CREATE'' ''LOGIN'',
      kw2_then_space ''ALTER'' ''LOGIN'',
      kw2_then_space ''CREATE'' ''USER'',
      kw2_then_space ''ALTER'' ''USER'',
      kw_call ''EXEC'',
      kw_call ''EXECUTE'',
      kw_bare ''xp_cmdshell'',
      kw_bare ''sp_configure'',
      kw_opt_space ''RECONFIGURE'',
      kw_then_space ''GRANT'',
      kw_then_space ''REVOKE'',
      kw_then_space ''DENY'']"

definition readOnlyPatterns :: "rx list" where
  "readOnlyPatterns =
     [kw_then_space ''INSERT'', kw_then_space ''UPDATE'', kw_then_space ''DELETE'']"

text \<open>
  \<open>env\<close> is the value of \<open>process.env.IS_READONLY\<close> (\<open>None\<close> when the variable is not
  set); read-only mode is on exactly when it is the string \<open>true\<close>.
\<close>

definition readOnlyMode :: "jstring option \<Rightarrow> bool" where
  "readOnlyMode env = (env = Some (asc ''true''))"

definition unsafePatterns :: "jstring option \<Rightarrow> rx list" where
  "unsafePatterns env = basePatterns @ (if readOnlyMode env then readOnlyPatterns else [])"

fun first_match :: "rx list \<Rightarrow> jstring \<Rightarrow> bool" where
  "first_match [] s = False"
| "first_match (p # ps) s = (if rx_test True p s then True else first_match ps s)"

definition isSafeQuery :: "(jstring \<Rightarrow> jstring) \<Rightarrow> jstring option \<Rightarrow> jstring \<Rightarrow> bool" where
  "isSafeQuery U env query =
     (let upperQuery = toUpperCase U (trim query)
      in \<not> first_match (unsafePatterns env) upperQuery)"

section \<open>Input validation (src/validation/index.js)\<close>

text \<open>
  A zod string schema runs its checks in the order they are declared and records one
  issue for each check that fails; an object schema visits its keys in the order of its
  shape (\<open>dbKeySchema.merge(...)\<close> puts \<open>dbKey\<close> first). The length of a string is its
  number of code units. \<open>validate\<close> turns a non-empty issue list (zod's \<open>error.errors\<close>)
  into \<open>Error("Validation failed: ...")\<close>, each issue printed as its path, a colon and
  its message. A thrown \<open>Error\<close> is modelled by its message, as \<open>Inl\<close>.
\<close>

type_synonym issue = "jstring list \<times> jstring"

definition check_min :: "nat \<Rightarrow> string \<Rightarrow> jstring \<Rightarrow> jstring list" where
  "check_min n msg s = (if length s < n then [asc msg] else [])"

definition check_max :: "nat \<Rightarrow> string \<Rightarrow> jstring \<Rightarrow> jstring list" where
  "check_max n msg s = (if length s > n then [asc msg] else [])"

definition check_regex :: "rx \<Rightarrow> string \<Rightarrow> jstring \<Rightarrow> jstring list" where
  "check_regex r msg s = (if rx_full False r s then [] else [asc msg])"

definition at_path :: "string \<Rightarrow> jstring list \<Rightarrow> issue list" where
  "at_path key msgs = map (\<lambda>m. ([asc key], m)) msgs"

definition sqlQuerySchema :: "jstring \<Rightarrow> issue list" where
  "sqlQuerySchema query =
     at_path ''query''
       (check_min 1 ''SQL query cannot be empty'' query @
        check_max 10000 ''SQL query is too long'' query)"

definition tableNameSchema :: "jstring \<Rightarrow> issue list" where
  "tableNameSchema table =
     at_path ''table''
       (check_min 1 ''Table name cannot be empty'' table @
        check_max 128 ''Table name is too long'' table @
        check_regex (Plus Word)
          ''Table name can only contain alphanumeric characters and underscores'' table)"

definition dbKeySchema :: "jstring \<Rightarrow> issue list" where
  "dbKeySchema dbKey =
     at_path ''dbKey''
       (check_min 1 ''Database key cannot be empty'' dbKey @
        check_max 50 ''Database key is too long'' dbKey @
        check_regex (Plus Word)
          ''Database key can only contain alphanumeric characters and underscores'' dbKey)"

definition dbKeyTableSchema :: "jstring \<Rightarrow> jstring \<Rightarrow> issue list" where
  "dbKeyTableSchema dbKey table = dbKeySchema dbKey @ tableNameSchema table"

definition dbKeyQuerySchema :: "jstring \<Rightarrow> jstring \<Rightarrow> issue list" where
  "dbKeyQuerySchema dbKey query = dbKeySchema dbKey @ sqlQuerySchema query"

definition uri_rx :: rx where
  "uri_rx = Seq (Lit ''mssql://'') (Seq (Plus Word) (Lit ''/data''))"

definition resourceUriSchema :: "jstring \<Rightarrow> issue list" where
  "resourceUriSchema u =
     map (\<lambda>m. ([], m))
       (check_regex uri_rx ''URI must match the pattern mssql://<table_name>/data'' u)"

definition format_issue :: "issue \<Rightarrow> jstring" where
  "format_issue i = join_with (asc ''.'') (fst i) @ asc '': '' @ snd i"

definition validate :: "issue list \<Rightarrow> 'a \<Rightarrow> jstring + 'a" where
  "validate issues parsed =
     (if issues = [] then Inr parsed
      else Inl (asc ''Validation failed: '' @ join_with (asc '', '') (map format_issue issues)))"

text \<open>A JavaScript value used as a condition: an absent or empty \<open>dbKey\<close> is falsy.\<close>

definition truthy :: "jstring option \<Rightarrow> bool" where
  "truthy k = (case k of None \<Rightarrow> False | Some s \<Rightarrow> s \<noteq> [])"

section \<open>Objects used as dictionaries\<close>

text \<open>
  \<open>dbConfigs\<close>, \<open>connectionStatus\<close> and \<open>pools\<close> are plain objects (\<open>{}\<close>) used as
  dictionaries. Such an object is modelled by the list of its own properties in the
  order they were created; the keys are distinct and none is \<open>__proto__\<close>, which an
  assignment \<open>obj[k] = v\<close> cannot create. Reading \<open>obj[k]\<close> finds an own property or,
  failing that, a member every object inherits from \<open>Object.prototype\<close>; the inherited
  members are functions or objects, so they are truthy and none of them is a
  configuration or a pool. The assignments and deletions of the source are reached only
  with a key at which the object has an own property or nothing at all, where they
  change own properties only.
\<close>

datatype 'a member = Own 'a | Inherited jstring

definition prototype_names :: "jstring list" where
  "prototype_names =
     map asc
       [''constructor'', ''__defineGetter__'', ''__defineSetter__'', ''hasOwnProperty'',
        ''__lookupGetter__'', ''__lookupSetter__'', ''isPrototypeOf'', ''propertyIsEnumerable'',
        ''toString'', ''valueOf'', ''__proto__'', ''toLocaleString'']"

definition js_get :: "(jstring \<times> 'a) list \<Rightarrow> jstring \<Rightarrow> 'a member option" where
  "js_get obj k =
     (case map_of obj k of
        Some v \<Rightarrow> Some (Own v)
      | None \<Rightarrow> if k \<in> set prototype_names then Some (Inherited k) else None)"

text \<open>
  \<open>Object.keys\<close>, \<open>Object.values\<close> and \<open>Object.entries\<close> list the own properties whose key
  is an array index (the decimal form of an integer from 0 to 4294967294) first, in
  ascending numeric order, and then the other properties in the order they were created.
\<close>

definition index_value :: "jstring \<Rightarrow> nat" where
  "index_value k = foldl (\<lambda>n c. 10 * n + (c - 48)) 0 k"

definition is_array_index :: "jstring \<Rightarrow> bool" where
  "is_array_index k \<longleftrightarrow>
     k \<noteq> [] \<and> list_all (\<lambda>c. 48 \<le> c \<and> c \<le> 57) k \<and> (k = [48] \<or> hd k \<noteq> 48) \<and>
     length k \<le> 10 \<and> index_value k \<le> 4294967294"

definition entries :: "(jstring \<times> 'a) list \<Rightarrow> (jstring \<times> 'a) list" where
  "entries obj =
     sort_key (\<lambda>kv. index_value (fst kv)) (filter (\<lambda>kv. is_array_index (fst kv)) obj) @
     filter (\<lambda>kv. \<not> is_array_index (fst kv)) obj"

definition own_keys :: "(jstring \<times> 'a) list \<Rightarrow> jstring list" where
  "own_keys obj = map fst (entries obj)"

text \<open>\<open>obj[dbKey]\<close>: an \<open>undefined\<close> key is converted to the property name \<open>undefined\<close>.\<close>

definition prop_key :: "jstring option \<Rightarrow> jstring" where
  "prop_key k = (case k of None \<Rightarrow> asc ''undefined'' | Some s \<Rightarrow> s)"

section \<open>The configuration module (config, in the file src/webpack.config.js)\<close>

text \<open>
  The text of the module that connection.js and tools.js load as \<open>../config\<close> follows
  the webpack configuration in the file src/webpack.config.js. The module builds \<open>dbConfigs\<close> once, when it is loaded, from the environment; the
  functions below take the finished object as the parameter \<open>dbConfigs\<close>. A
  configuration has the fields the tools read; the time-outs and pool limits are passed
  to the driver untouched and are left out.
\<close>

record db_config =
  server :: jstring
  port :: "int option"
  user :: jstring
  password :: jstring
  database :: jstring
  encrypt :: bool
  trustServerCertificate :: bool

text \<open>An entry of \<open>connectionStatus\<close>; \<open>None\<close> is \<open>null\<close>.\<close>

record conn_status =
  lastConnected :: "jstring option"
  lastError :: "jstring option"
  status :: jstring

text \<open>
  The status map right after the module is loaded: one entry per configured key, made
  in the order of \<open>Object.keys(dbConfigs)\<close>.
\<close>

definition init_status :: "(jstring \<times> db_config) list \<Rightarrow> (jstring \<times> conn_status) list" where
  "init_status dbConfigs =
     map (\<lambda>k. (k, \<lparr>lastConnected = None, lastError = None, status = asc ''initialized''\<rparr>))
       (own_keys dbConfigs)"

text \<open>
  \<open>getDbConfig\<close>: "Returns the config for the given dbKey. If dbKey is not provided, falls
  back to the first available config. Throws if not found." The result \<open>Inr None\<close> is
  \<open>undefined\<close>.
\<close>

definition getDbConfig ::
  "(jstring \<Rightarrow> jstring) \<Rightarrow> (jstring \<times> db_config) list \<Rightarrow> jstring option
     \<Rightarrow> jstring + db_config member option" where
  "getDbConfig L dbConfigs dbKey =
     (if truthy dbKey then
        (let key = toLowerCase L (the dbKey) in
         case js_get dbConfigs key of
           None \<Rightarrow>
             Inl (asc ''[config] Invalid dbKey '' @ [39] @ the dbKey @ [39] @
                  asc ''. Available: '' @ join_with (asc '', '') (own_keys dbConfigs))
         | Some m \<Rightarrow> Inr (Some m))
      else
        (case own_keys dbConfigs of
           [] \<Rightarrow> Inr (js_get dbConfigs (asc ''undefined''))
         | firstKey # _ \<Rightarrow> Inr (js_get dbConfigs firstKey)))"

text \<open>
  The module also exports \<open>updateConnectionStatus\<close>, the only code that writes to
  \<open>connectionStatus\<close> after the module is loaded. No module of the repository calls it, so
  no operation below changes the status object.
\<close>

section \<open>The connection pool cache (src/db/connection.js)\<close>

text \<open>
  A pool object: \<open>pool_id\<close> is its identity (every \<open>new sql.ConnectionPool\<close> is a fresh
  object), \<open>pool_config\<close> the value it was made from, \<open>pool_key\<close> the \<open>poolKey\<close> its replaced
  \<open>close\<close> method has captured.
\<close>

record pool =
  pool_id :: nat
  pool_config :: "db_config member"
  pool_key :: jstring

text \<open>
  A value the driver puts in a row: \<open>null\<close>, \<open>undefined\<close>, a string, or any other value
  (number, boolean, date, buffer), which the model knows by its conversion to a string.
  A row is modelled by the list of its properties in the order \<open>Object.keys\<close> gives.
\<close>

datatype cell = CNull | CUndefined | CStr jstring | CVal jstring

type_synonym row = "(jstring \<times> cell) list"

record query_result =
  rowsAffected :: "int list"
  recordset :: "row list option"

text \<open>
  The database driver is the environment. \<open>connect cfg i\<close> is the outcome of
  \<open>pool.connect()\<close> for the pool with identity \<open>i\<close> made from \<open>cfg\<close> (\<open>None\<close>: connected,
  \<open>Some m\<close>: rejected with message \<open>m\<close>); \<open>run_query n p sql inputs\<close> is the outcome of the
  statement \<open>sql\<close> sent through pool \<open>p\<close> after \<open>n\<close> earlier statements.
\<close>

record driver =
  connect :: "db_config member \<Rightarrow> nat \<Rightarrow> jstring option"
  run_query :: "nat \<Rightarrow> pool \<Rightarrow> jstring \<Rightarrow> (jstring \<times> jstring) list \<Rightarrow> jstring + query_result"

record resource =
  uri :: jstring
  name :: jstring
  description :: jstring
  mimeType :: jstring

text \<open>
  The process-wide mutable state: the \<open>pools\<close> object of connection.js, the counter of
  object identities, the pools the driver has closed, the statements sent to the
  database (pool identity, text, inputs), the \<open>resourceCache\<close> of resources.js (a \<open>Map\<close>)
  and the \<open>connectionStatus\<close> object of the configuration module. A call runs from its
  start to its end; calls that overlap at an \<open>await\<close> are not modelled.
\<close>

record state =
  pools :: "(jstring \<times> pool) list"
  next_id :: nat
  closed :: "nat list"
  issued :: "(nat \<times> jstring \<times> (jstring \<times> jstring) list) list"
  resourceCache :: "(jstring \<times> resource list) list"
  connectionStatus :: "(jstring \<times> conn_status) list"

definition or_default :: "jstring option \<Rightarrow> jstring" where
  "or_default k = (if truthy k then the k else asc ''default'')"

text \<open>\<open>dbConfigs[dbKey] || Object.values(dbConfigs)[0]\<close>; \<open>None\<close> is \<open>undefined\<close>.\<close>

definition resolve_config ::
  "(jstring \<times> db_config) list \<Rightarrow> jstring option \<Rightarrow> db_config member option" where
  "resolve_config dbConfigs dbKey =
     (case js_get dbConfigs (prop_key dbKey) of
        Some m \<Rightarrow> Some m
      | None \<Rightarrow> (case entries dbConfigs of [] \<Rightarrow> None | kc # _ \<Rightarrow> Some (Own (snd kc))))"

definition getPool ::
  "driver \<Rightarrow> (jstring \<times> db_config) list \<Rightarrow> jstring option \<Rightarrow> state
     \<Rightarrow> (jstring + pool member) \<times> state" where
  "getPool drv dbConfigs dbKey s =
     (case resolve_config dbConfigs dbKey of
        None \<Rightarrow> (Inl (asc ''No database configuration found.''), s)
      | Some config \<Rightarrow>
          (let poolKey = or_default dbKey in
           case js_get (pools s) poolKey of
             Some m \<Rightarrow> (Inr m, s)
           | None \<Rightarrow>
               (let p = \<lparr>pool_id = next_id s, pool_config = config, pool_key = poolKey\<rparr>;
                    s1 = s\<lparr>next_id := Suc (next_id s)\<rparr>
                in case connect drv config (pool_id p) of
                     Some msg \<Rightarrow> (Inl msg, s1)
                   | None \<Rightarrow> (Inr (Own p), s1\<lparr>pools := AList.update poolKey p (pools s1)\<rparr>))))"

text \<open>
  The replaced \<open>pool.close\<close>: first \<open>delete pools[poolKey]\<close>, then the driver's own
  \<open>close\<close>.
\<close>

definition evict :: "pool \<Rightarrow> state \<Rightarrow> state" where
  "evict p s = s\<lparr>pools := AList.delete (pool_key p) (pools s)\<rparr>"

definition driver_close :: "pool \<Rightarrow> state \<Rightarrow> state" where
  "driver_close p s = s\<lparr>closed := pool_id p # closed s\<rparr>"

definition pool_close :: "pool \<Rightarrow> state \<Rightarrow> state" where
  "pool_close p s = driver_close p (evict p s)"

text \<open>
  \<open>pool.request().input(...).query(sql)\<close>: on a pool the statement is sent and recorded;
  on an inherited member, which has no \<open>request\<close> method, the call throws a TypeError.
\<close>

definition query ::
  "driver \<Rightarrow> pool member \<Rightarrow> jstring \<Rightarrow> (jstring \<times> jstring) list \<Rightarrow> state
     \<Rightarrow> (jstring + query_result) \<times> state" where
  "query drv m sql inputs s =
     (case m of
        Own p \<Rightarrow>
          (run_query drv (length (issued s)) p sql inputs,
           s\<lparr>issued := issued s @ [(pool_id p, sql, inputs)]\<rparr>)
      | Inherited k \<Rightarrow> (Inl (asc ''pool.request is not a function''), s))"

text \<open>The state when the modules have been loaded.\<close>

definition boot :: "(jstring \<times> db_config) list \<Rightarrow> state" where
  "boot dbConfigs =
     \<lparr>pools = [], next_id = 0, closed = [], issued = [], resourceCache = [],
      connectionStatus = init_status dbConfigs\<rparr>"

section \<open>The tools (src/modules/tools.js)\<close>

text \<open>
  JavaScript values handed to \<open>JSON.stringify\<close>; an object is the list of its properties
  in enumeration order. \<open>JDriver c\<close> is a value of a driver row. \<open>JSON.stringify\<close> leaves
  out an object property whose value is \<open>undefined\<close>.
\<close>

datatype jsval =
    JUndefined
  | JNull
  | JBool bool
  | JNum int
  | JStr jstring
  | JArr "jsval list"
  | JObj "(jstring \<times> jsval) list"
  | JDriver cell

text \<open>
  A tool response \<open>{content: [{type: "text", text: JSON.stringify(v, null, 2)}], isError}\<close>;
  \<open>content_text\<close> is the value \<open>v\<close> that is serialised.
\<close>

record tool_result =
  content_text :: jsval
  isError :: bool

definition error_result :: "jstring \<Rightarrow> tool_result" where
  "error_result msg = \<lparr>content_text = JObj [(asc ''error'', JStr msg)], isError = True\<rparr>"

definition blocked_message :: jstring where
  "blocked_message =
     asc ''Query contains potentially unsafe operations and was blocked for security''"

definition rows_json :: "row list \<Rightarrow> jsval" where
  "rows_json rs = JArr (map (\<lambda>r. JObj (map (\<lambda>kv. (fst kv, JDriver (snd kv))) r)) rs)"

definition executeSql ::
  "(jstring \<Rightarrow> jstring) \<Rightarrow> driver \<Rightarrow> (jstring \<times> db_config) list \<Rightarrow> jstring option \<Rightarrow> jstring
     \<Rightarrow> jstring option \<Rightarrow> state \<Rightarrow> tool_result \<times> state" where
  "executeSql U drv dbConfigs env sqlText dbKey s =
     (case (if truthy dbKey then validate (dbKeyQuerySchema (the dbKey) sqlText) sqlText
            else validate (sqlQuerySchema sqlText) sqlText) of
        Inl msg \<Rightarrow> (error_result msg, s)
      | Inr validQuery \<Rightarrow>
          if \<not> isSafeQuery U env validQuery then (error_result blocked_message, s)
          else
            (case getPool drv dbConfigs dbKey s of
               (Inl msg, s1) \<Rightarrow> (error_result msg, s1)
             | (Inr p, s1) \<Rightarrow>
                 (case query drv p validQuery [] s1 of
                    (Inl msg, s2) \<Rightarrow> (error_result msg, s2)
                  | (Inr res, s2) \<Rightarrow>
                      (\<lparr>content_text =
                          JObj [(asc ''message'', JStr (asc ''Query executed successfully'')),
                                (asc ''rowsAffected'',
                                   (case rowsAffected res of [] \<Rightarrow> JUndefined | n # _ \<Rightarrow> JNum n)),
                                (asc ''recordset'',
                                   (case recordset res of None \<Rightarrow> JUndefined
                                    | Some rs \<Rightarrow> rows_json rs))],
                         isError = False\<rparr>, s2))))"

definition schema_sql :: jstring where
  "schema_sql =
     [10] @ asc ''        SELECT COLUMN_NAME, DATA_TYPE, CHARACTER_MAXIMUM_LENGTH'' @
     [10] @ asc ''        FROM INFORMATION_SCHEMA.COLUMNS'' @
     [10] @ asc ''        WHERE TABLE_NAME = @tableName'' @
     [10] @ asc ''        ORDER BY ORDINAL_POSITION'' @
     [10] @ asc ''      ''"

text \<open>Reading \<open>.length\<close> or calling \<open>.map\<close> on an \<open>undefined\<close> record set throws a TypeError.\<close>

definition undefined_read :: "string \<Rightarrow> jstring" where
  "undefined_read prop =
     asc ''Cannot read properties of undefined (reading '' @ [39] @ asc prop @ [39] @ asc '')''"

definition not_found_message :: "jstring \<Rightarrow> jstring" where
  "not_found_message table =
     asc ''Table '' @ [39] @ table @ [39] @ asc '' not found or has no columns''"

definition getTableSchema ::
  "driver \<Rightarrow> (jstring \<times> db_config) list \<Rightarrow> jstring \<Rightarrow> jstring option \<Rightarrow> state
     \<Rightarrow> tool_result \<times> state" where
  "getTableSchema drv dbConfigs table dbKey s =
     (case (if truthy dbKey then validate (dbKeyTableSchema (the dbKey) table) table
            else validate (tableNameSchema table) table) of
        Inl msg \<Rightarrow> (error_result msg, s)
      | Inr validTable \<Rightarrow>
          (case getPool drv dbConfigs dbKey s of
             (Inl msg, s1) \<Rightarrow> (error_result msg, s1)
           | (Inr p, s1) \<Rightarrow>
               (case query drv p schema_sql [(asc ''tableName'', validTable)] s1 of
                  (Inl msg, s2) \<Rightarrow> (error_result msg, s2)
                | (Inr res, s2) \<Rightarrow>
                    (case recordset res of
                       None \<Rightarrow> (error_result (undefined_read ''length''), s2)
                     | Some rs \<Rightarrow>
                         if length rs = 0 then (error_result (not_found_message validTable), s2)
                         else
                           (\<lparr>content_text =
                               JObj [(asc ''table'', JStr validTable),
                                     (asc ''columns'', rows_json rs)],
                              isError = False\<rparr>, s2)))))"

definition sanitize :: "db_config \<Rightarrow> jsval" where
  "sanitize config =
     JObj [(asc ''server'', JStr (server config)),
           (asc ''port'', JNum (case port config of None \<Rightarrow> 1433
                                | Some n \<Rightarrow> if n = 0 then 1433 else n)),
           (asc ''database'', JStr (database config)),
           (asc ''user'', JStr (user config)),
           (asc ''options'',
              JObj [(asc ''encrypt'', JBool (encrypt config)),
                    (asc ''trustServerCertificate'', JBool (trustServerCertificate config))])]"

definition status_json :: "conn_status \<Rightarrow> jsval" where
  "status_json c =
     JObj [(asc ''lastConnected'', (case lastConnected c of None \<Rightarrow> JNull | Some t \<Rightarrow> JStr t)),
           (asc ''lastError'', (case lastError c of None \<Rightarrow> JNull | Some m \<Rightarrow> JStr m)),
           (asc ''status'', JStr (status c))]"

text \<open>\<open>getConnectionStatus()\<close> returns the \<open>connectionStatus\<close> object.\<close>

definition getConnectionStatus :: "state \<Rightarrow> jsval" where
  "getConnectionStatus s =
     JObj (map (\<lambda>kc. (fst kc, status_json (snd kc))) (entries (connectionStatus s)))"

text \<open>
  \<open>listDatabases\<close>. With well-typed configurations nothing inside its \<open>try\<close> block can
  throw, so the \<open>catch\<close> branch has no counterpart here.
\<close>

definition listDatabases :: "(jstring \<times> db_config) list \<Rightarrow> state \<Rightarrow> tool_result" where
  "listDatabases dbConfigs s =
     (let sanitizedConfigs = JObj (map (\<lambda>kc. (fst kc, sanitize (snd kc))) (entries dbConfigs));
          statusInfo = getConnectionStatus s
      in \<lparr>content_text =
            JObj [(asc ''availableDatabases'', JArr (map JStr (own_keys dbConfigs))),
                  (asc ''configurations'', sanitizedConfigs),
                  (asc ''connectionStatus'', statusInfo),
                  (asc ''count'', JNum (int (length (own_keys dbConfigs)))),
                  (asc ''defaultDatabase'',
                     (case own_keys dbConfigs of [] \<Rightarrow> JUndefined | k # _ \<Rightarrow> JStr k))],
          isError = False\<rparr>)"

section \<open>The resources (src/modules/resources.js)\<close>

definition tables_sql :: jstring where
  "tables_sql =
     [10] @ asc ''      SELECT TABLE_NAME'' @
     [10] @ asc ''      FROM INFORMATION_SCHEMA.TABLES'' @
     [10] @ asc ''      WHERE TABLE_TYPE = '' @ [39] @ asc ''BASE TABLE'' @ [39] @
     [10] @ asc ''    ''"

text \<open>A value inside a template literal: \<open>${row.TABLE_NAME}\<close>.\<close>

definition template_str :: "cell option \<Rightarrow> jstring" where
  "template_str c =
     (case c of None \<Rightarrow> asc ''undefined'' | Some CUndefined \<Rightarrow> asc ''undefined''
      | Some CNull \<Rightarrow> asc ''null'' | Some (CStr v) \<Rightarrow> v | Some (CVal v) \<Rightarrow> v)"

definition table_resource :: "row \<Rightarrow> resource" where
  "table_resource r =
     (let t = template_str (map_of r (asc ''TABLE_NAME''))
      in \<lparr>uri = asc ''mssql://'' @ t @ asc ''/data'', name = asc ''Table: '' @ t,
          description = asc ''Data in table: '' @ t, mimeType = asc ''text/plain''\<rparr>)"

text \<open>
  \<open>listResources\<close>. The timer that deletes the cache entry after five minutes is not
  part of the model: no time passes inside a call.
\<close>

definition listResources ::
  "driver \<Rightarrow> (jstring \<times> db_config) list \<Rightarrow> jstring option \<Rightarrow> state
     \<Rightarrow> (jstring + resource list) \<times> state" where
  "listResources drv dbConfigs dbKey s =
     (let cacheKey = or_default dbKey in
      case map_of (resourceCache s) cacheKey of
        Some cached \<Rightarrow> (Inr cached, s)
      | None \<Rightarrow>
          (case (if truthy dbKey then validate (dbKeySchema (the dbKey)) () else Inr ()) of
             Inl msg \<Rightarrow> (Inr [], s)
           | Inr _ \<Rightarrow>
               (case getPool drv dbConfigs dbKey s of
                  (Inl msg, s1) \<Rightarrow> (Inr [], s1)
                | (Inr p, s1) \<Rightarrow>
                    (case query drv p tables_sql [] s1 of
                       (Inl msg, s2) \<Rightarrow> (Inr [], s2)
                     | (Inr res, s2) \<Rightarrow>
                         (case recordset res of
                            None \<Rightarrow> (Inr [], s2)
                          | Some rs \<Rightarrow>
                              (let resources = map table_resource rs
                               in (Inr resources,
                                   s2\<lparr>resourceCache :=
                                        AList.update cacheKey resources (resourceCache s2)\<rparr>)))))))"

text \<open>\<open>String.prototype.split\<close> on a one-character separator.\<close>

fun split_on :: "nat \<Rightarrow> jstring \<Rightarrow> jstring list" where
  "split_on sep [] = [[]]"
| "split_on sep (c # cs) =
     (if c = sep then [] # split_on sep cs
      else (case split_on sep cs of [] \<Rightarrow> [[c]] | p # ps \<Rightarrow> (c # p) # ps))"

definition startsWith :: "jstring \<Rightarrow> jstring \<Rightarrow> bool" where
  "startsWith s p = (take (length p) s = p)"

text \<open>\<open>value.replace(/"/g, '""')\<close>; the double quote is code unit 34.\<close>

definition double_quotes :: "jstring \<Rightarrow> jstring" where
  "double_quotes v = concat (map (\<lambda>c. if c = 34 then [34, 34] else [c]) v)"

text \<open>The comma is code unit 44 and the line feed code unit 10.\<close>

definition csv_value :: "cell option \<Rightarrow> jstring" where
  "csv_value c =
     (case c of
        None \<Rightarrow> []
      | Some CUndefined \<Rightarrow> []
      | Some CNull \<Rightarrow> []
      | Some (CStr v) \<Rightarrow>
          if 44 \<in> set v \<or> 34 \<in> set v \<or> 10 \<in> set v
          then [34] @ double_quotes v @ [34]
          else v
      | Some (CVal v) \<Rightarrow> v)"

definition csv_text :: "row list \<Rightarrow> jstring" where
  "csv_text rs =
     (let columns = (case rs of [] \<Rightarrow> [] | r # _ \<Rightarrow> map fst r);
          csvRows = join_with [44] columns #
                    map (\<lambda>r. join_with [44] (map (\<lambda>col. csv_value (map_of r col)) columns)) rs
      in join_with [10] csvRows)"

definition select_top :: "jstring \<Rightarrow> jstring" where
  "select_top table = asc ''SELECT TOP 100 * FROM ['' @ table @ asc '']''"

definition readResource ::
  "driver \<Rightarrow> (jstring \<times> db_config) list \<Rightarrow> jstring \<Rightarrow> jstring option \<Rightarrow> state
     \<Rightarrow> (jstring + jstring) \<times> state" where
  "readResource drv dbConfigs u dbKey s =
     (let rethrow = (\<lambda>msg. Inl (asc ''Database error: '' @ msg)) in
      case validate (resourceUriSchema u) u of
        Inl msg \<Rightarrow> (rethrow msg, s)
      | Inr validUri \<Rightarrow>
          (case (if truthy dbKey then validate (dbKeySchema (the dbKey)) () else Inr ()) of
             Inl msg \<Rightarrow> (rethrow msg, s)
           | Inr _ \<Rightarrow>
               if \<not> startsWith validUri (asc ''mssql://'')
               then (rethrow (asc ''Invalid URI scheme: '' @ validUri), s)
               else
                 (let parts = split_on 47 (drop 8 validUri);
                      table = (case parts of [] \<Rightarrow> asc ''undefined'' | t # _ \<Rightarrow> t)
                  in case getPool drv dbConfigs dbKey s of
                       (Inl msg, s1) \<Rightarrow> (rethrow msg, s1)
                     | (Inr p, s1) \<Rightarrow>
                         (case query drv p (select_top table) [] s1 of
                            (Inl msg, s2) \<Rightarrow> (rethrow msg, s2)
                          | (Inr res, s2) \<Rightarrow>
                              (case recordset res of
                                 None \<Rightarrow> (rethrow (undefined_read ''length''), s2)
                               | Some rs \<Rightarrow> (Inr (csv_text rs), s2))))))"

section \<open>The HTTP route GET /resources (src/server/index.js)\<close>

record http_response =
  status_code :: nat
  body :: jsval

text \<open>
  The error handling middleware; \<open>statusCode\<close> is the property the route has set on the
  error, if any, \<open>now\<close> the time stamp \<open>new Date().toISOString()\<close>.
\<close>

definition errorHandler :: "jstring \<Rightarrow> nat option \<Rightarrow> string \<Rightarrow> jstring \<Rightarrow> http_response" where
  "errorHandler msg statusCode path now =
     \<lparr>status_code = (case statusCode of None \<Rightarrow> 500 | Some c \<Rightarrow> if c = 0 then 500 else c),
      body = JObj [(asc ''error'', JStr msg), (asc ''path'', JStr (asc path)),
                   (asc ''timestamp'', JStr now)]\<rparr>"

definition resource_json :: "resource \<Rightarrow> jsval" where
  "resource_json r =
     JObj [(asc ''uri'', JStr (uri r)), (asc ''name'', JStr (name r)),
           (asc ''description'', JStr (description r)), (asc ''mimeType'', JStr (mimeType r))]"

text \<open>
  The middleware \<open>validateDbKey\<close> followed by the route: \<open>dbKey\<close> is the query parameter
  (a GET request has no body).
\<close>

definition get_resources ::
  "driver \<Rightarrow> (jstring \<times> db_config) list \<Rightarrow> jstring \<Rightarrow> jstring option \<Rightarrow> state
     \<Rightarrow> http_response \<times> state" where
  "get_resources drv dbConfigs now dbKey s =
     (case (if truthy dbKey then validate (dbKeySchema (the dbKey)) () else Inr ()) of
        Inl msg \<Rightarrow> (errorHandler msg (Some 400) ''/resources'' now, s)
      | Inr _ \<Rightarrow>
          (case listResources drv dbConfigs dbKey s of
             (Inl msg, s1) \<Rightarrow> (errorHandler msg None ''/resources'' now, s1)
           | (Inr resources, s1) \<Rightarrow>
               (\<lparr>status_code = 200, body = JArr (map resource_json resources)\<rparr>, s1)))"

section \<open>A sample configuration and sample drivers\<close>

definition sample_config :: db_config where
  "sample_config =
     \<lparr>server = asc ''localhost'', port = None, user = asc ''sa'', password = asc ''s3cret'',
      database = asc ''foo'', encrypt = True, trustServerCertificate = False\<rparr>"

definition sample_rows :: "row list" where
  "sample_rows =
     [[(asc ''id'', CVal (asc ''1'')),
       (asc ''note'', CStr (asc ''a,b '' @ [34] @ asc ''c'' @ [34, 10] @ asc ''d''))],
      [(asc ''id'', CVal (asc ''2'')), (asc ''note'', CNull)]]"

text \<open>A driver that connects and answers every statement with the sample rows.\<close>

definition good_driver :: driver where
  "good_driver =
     \<lparr>connect = (\<lambda>c i. None),
      run_query = (\<lambda>n p q i. Inr \<lparr>rowsAffected = [2], recordset = Some sample_rows\<rparr>)\<rparr>"

text \<open>A driver that connects and finds no row.\<close>

definition empty_driver :: driver where
  "empty_driver =
     \<lparr>connect = (\<lambda>c i. None),
      run_query = (\<lambda>n p q i. Inr \<lparr>rowsAffected = [0], recordset = Some []\<rparr>)\<rparr>"

text \<open>A driver whose every connection attempt fails.\<close>

definition down_driver :: driver where
  "down_driver =
     \<lparr>connect = (\<lambda>c i. Some (asc ''Connection error'')),
      run_query = (\<lambda>n p q i. Inl (asc ''Connection is closed''))\<rparr>"

text \<open>
  A table for the code points beyond ASCII that maps U+00DF to \<open>SS\<close> and leaves the
  others alone, and one for lower case that changes nothing.
\<close>

definition sample_upper :: "jstring \<Rightarrow> jstring" where
  "sample_upper p = (if p = [223] then [83, 83] else p)"

definition sample_lower :: "jstring \<Rightarrow> jstring" where
  "sample_lower s = s"

section \<open>The vocabulary of the statements\<close>

subsection \<open>The words a pattern matches\<close>

text \<open>
  The set of words a pattern matches, in the usual reading of a regular expression;
  \<open>rests\<close> is shown below to compute exactly the remainders this reading allows.
\<close>

fun lang :: "bool \<Rightarrow> rx \<Rightarrow> jstring set" where
  "lang ci (Lit l) = {w. list_all2 (chr_eq ci) l w}"
| "lang ci (Star k) = {w. \<forall>c\<in>set w. in_class k c}"
| "lang ci (Plus k) = {w. w \<noteq> [] \<and> (\<forall>c\<in>set w. in_class k c)}"
| "lang ci (Seq a b) = {u @ v | u v. u \<in> lang ci a \<and> v \<in> lang ci b}"
| "lang ci (Alt a b) = lang ci a \<union> lang ci b"

subsection \<open>Keywords in a text\<close>

text \<open>
  A word spells the keyword \<open>k\<close> when it is \<open>k\<close> in some mixture of the cases of the
  letters \<open>a..z\<close>.
\<close>

definition spells :: "string \<Rightarrow> jstring \<Rightarrow> bool" where
  "spells k w \<longleftrightarrow> map ascii_upper w = map ascii_upper (asc k)"

text \<open>
  The forms in which the deny patterns look for a keyword \<open>k\<close> in a text \<open>t\<close>: anywhere;
  followed by a white space character; as two words with white space between them and
  after them; followed by white space or, after optional white space, by an opening
  parenthesis (code unit 40).
\<close>

definition occurs :: "string \<Rightarrow> jstring \<Rightarrow> bool" where
  "occurs k t \<longleftrightarrow> (\<exists>u w v. t = u @ w @ v \<and> spells k w)"

definition followed_by_space :: "string \<Rightarrow> jstring \<Rightarrow> bool" where
  "followed_by_space k t \<longleftrightarrow> (\<exists>u w c v. t = u @ w @ c # v \<and> spells k w \<and> is_space c)"

definition two_words :: "string \<Rightarrow> string \<Rightarrow> jstring \<Rightarrow> bool" where
  "two_words a b t \<longleftrightarrow>
     (\<exists>u wa ws wb c v. t = u @ wa @ ws @ wb @ c # v \<and> spells a wa \<and> spells b wb \<and>
        ws \<noteq> [] \<and> (\<forall>x\<in>set ws. is_space x) \<and> is_space c)"

definition called :: "string \<Rightarrow> jstring \<Rightarrow> bool" where
  "called k t \<longleftrightarrow>
     followed_by_space k t \<or>
     (\<exists>u w ws v. t = u @ w @ ws @ 40 # v \<and> spells k w \<and> (\<forall>x\<in>set ws. is_space x))"

text \<open>
  The text holds a denied keyword in the form its pattern asks for; the last three
  forms count in read-only mode only.
\<close>

definition denied_form :: "bool \<Rightarrow> jstring \<Rightarrow> bool" where
  "denied_form ro t \<longleftrightarrow>
     followed_by_space ''DROP'' t \<or> followed_by_space ''TRUNCATE'' t \<or>
     two_words ''ALTER'' ''ROLE'' t \<or> two_words ''CREATE'' ''LOGIN'' t \<or>
     two_words ''ALTER'' ''LOGIN'' t \<or> two_words ''CREATE'' ''USER'' t \<or>
     two_words ''ALTER'' ''USER'' t \<or>
     called ''EXEC'' t \<or> called ''EXECUTE'' t \<or>
     occurs ''xp_cmdshell'' t \<or> occurs ''sp_configure'' t \<or> occurs ''RECONFIGURE'' t \<or>
     followed_by_space ''GRANT'' t \<or> followed_by_space ''REVOKE'' t \<or>
     followed_by_space ''DENY'' t \<or>
     (ro \<and> (followed_by_space ''INSERT'' t \<or> followed_by_space ''UPDATE'' t \<or>
            followed_by_space ''DELETE'' t))"

text \<open>
  A query mentions the keyword \<open>k\<close> when its upper-case form holds the keyword; this is
  where a letter such as U+00DF, whose upper case is \<open>SS\<close>, counts. It mentions a
  two-word keyword when its upper-case form holds the words with white space between
  them. A query is free of denied tokens when it mentions none of the keywords of the
  deny patterns, and free of data-changing tokens when it mentions none of INSERT,
  UPDATE and DELETE.
\<close>

definition mentions :: "(jstring \<Rightarrow> jstring) \<Rightarrow> string \<Rightarrow> jstring \<Rightarrow> bool" where
  "mentions U k q \<longleftrightarrow> occurs k (toUpperCase U q)"

definition mentions2 :: "(jstring \<Rightarrow> jstring) \<Rightarrow> string \<Rightarrow> string \<Rightarrow> jstring \<Rightarrow> bool" where
  "mentions2 U a b q \<longleftrightarrow>
     (\<exists>u wa ws wb v. toUpperCase U q = u @ wa @ ws @ wb @ v \<and> spells a wa \<and> spells b wb \<and>
        ws \<noteq> [] \<and> (\<forall>x\<in>set ws. is_space x))"

definition token_free :: "(jstring \<Rightarrow> jstring) \<Rightarrow> jstring \<Rightarrow> bool" where
  "token_free U q \<longleftrightarrow>
     \<not> mentions U ''DROP'' q \<and> \<not> mentions U ''TRUNCATE'' q \<and>
     \<not> mentions2 U ''ALTER'' ''ROLE'' q \<and> \<not> mentions2 U ''CREATE'' ''LOGIN'' q \<and>
     \<not> mentions2 U ''ALTER'' ''LOGIN'' q \<and> \<not> mentions2 U ''CREATE'' ''USER'' q \<and>
     \<not> mentions2 U ''ALTER'' ''USER'' q \<and>
     \<not> mentions U ''EXEC'' q \<and> \<not> mentions U ''EXECUTE'' q \<and>
     \<not> mentions U ''xp_cmdshell'' q \<and> \<not> mentions U ''sp_configure'' q \<and>
     \<not> mentions U ''RECONFIGURE'' q \<and>
     \<not> mentions U ''GRANT'' q \<and> \<not> mentions U ''REVOKE'' q \<and> \<not> mentions U ''DENY'' q"

definition dml_free :: "(jstring \<Rightarrow> jstring) \<Rightarrow> jstring \<Rightarrow> bool" where
  "dml_free U q \<longleftrightarrow>
     \<not> mentions U ''INSERT'' q \<and> \<not> mentions U ''UPDATE'' q \<and> \<not> mentions U ''DELETE'' q"

subsection \<open>Well-formed pool caches, reachable states and valid inputs\<close>

text \<open>
  Every cached pool sits under the key its \<open>close\<close> method has captured, its identity
  is older than the next fresh one, and no pool sits under the name of an inherited
  member (\<open>getPool\<close> stores a pool only under a key at which \<open>pools\<close> had nothing).
\<close>

definition cache_ok :: "state \<Rightarrow> bool" where
  "cache_ok s =
     list_all (\<lambda>kp. pool_key (snd kp) = fst kp \<and> pool_id (snd kp) < next_id s \<and>
                     fst kp \<notin> set prototype_names) (pools s)"

text \<open>
  The states the server can be in with the configuration \<open>dbConfigs\<close>: the state after
  loading, and the state after any operation or any \<open>close\<close> of a pool, whatever the
  arguments of the call and whatever the driver answers.
\<close>

inductive reachable :: "(jstring \<times> db_config) list \<Rightarrow> state \<Rightarrow> bool"
  for dbConfigs :: "(jstring \<times> db_config) list" where
  r_boot: "reachable dbConfigs (boot dbConfigs)"
| r_getPool: "reachable dbConfigs s \<Longrightarrow> reachable dbConfigs (snd (getPool drv dbConfigs dbKey s))"
| r_close: "reachable dbConfigs s \<Longrightarrow> reachable dbConfigs (pool_close p s)"
| r_executeSql:
    "reachable dbConfigs s \<Longrightarrow> reachable dbConfigs (snd (executeSql U drv dbConfigs env q dbKey s))"
| r_getTableSchema:
    "reachable dbConfigs s \<Longrightarrow> reachable dbConfigs (snd (getTableSchema drv dbConfigs t dbKey s))"
| r_listResources:
    "reachable dbConfigs s \<Longrightarrow> reachable dbConfigs (snd (listResources drv dbConfigs dbKey s))"
| r_readResource:
    "reachable dbConfigs s \<Longrightarrow> reachable dbConfigs (snd (readResource drv dbConfigs u dbKey s))"
| r_get_resources:
    "reachable dbConfigs s \<Longrightarrow> reachable dbConfigs (snd (get_resources drv dbConfigs now dbKey s))"

text \<open>
  The input of \<open>executeSql\<close> and of \<open>getTableSchema\<close> passes validation.
\<close>

definition query_input_ok :: "jstring option \<Rightarrow> jstring \<Rightarrow> bool" where
  "query_input_ok dbKey q =
     ((if truthy dbKey then dbKeyQuerySchema (the dbKey) q else sqlQuerySchema q) = [])"

definition table_input_ok :: "jstring option \<Rightarrow> jstring \<Rightarrow> bool" where
  "table_input_ok dbKey t =
     ((if truthy dbKey then dbKeyTableSchema (the dbKey) t else tableNameSchema t) = [])"

subsection \<open>Properties of an output and configurations with other passwords\<close>

text \<open>Property lookup on an object value.\<close>

definition field :: "string \<Rightarrow> jsval \<Rightarrow> jsval option" where
  "field k v = (case v of JObj kvs \<Rightarrow> map_of kvs (asc k) | _ \<Rightarrow> None)"

text \<open>The configuration with every password replaced by what \<open>pw\<close> chooses.\<close>

definition with_passwords ::
  "(jstring \<times> db_config \<Rightarrow> jstring) \<Rightarrow> (jstring \<times> db_config) list
     \<Rightarrow> (jstring \<times> db_config) list" where
  "with_passwords pw dbConfigs = map (\<lambda>kc. (fst kc, (snd kc)\<lparr>password := pw kc\<rparr>)) dbConfigs"

subsection \<open>Reading CSV text back (RFC 4180)\<close>












section \<open>Facts about characters and patterns\<close>

lemma ascii_upper_idem: "ascii_upper (ascii_upper c) = ascii_upper c"
  by (auto simp: ascii_upper_def)

lemma is_space_ascii_upper: "is_space (ascii_upper c) = is_space c"
  by (auto simp: ascii_upper_def is_space_def)

lemma ascii_upper_small: "ascii_upper c < 128 \<longleftrightarrow> c < 128"
  by (auto simp: ascii_upper_def)

lemma code_points_append:
  assumes "a = [] \<or> \<not> is_high (last a) \<or> b = [] \<or> \<not> is_low (hd b)"
  shows "code_points (a @ b) = code_points a @ code_points b"
  using assms
proof (induction a rule: code_points.induct)
  case 1
  then show ?case by simp
next
  case (2 c)
  then show ?case by (cases b) auto
next
  case (3 c d cs)
  show ?case
  proof (cases "is_high c \<and> is_low d")
    case True
    have "cs = [] \<or> \<not> is_high (last cs) \<or> b = [] \<or> \<not> is_low (hd b)"
      using "3.prems" by (cases "cs = []") auto
    with True "3.IH"(1) have "code_points (cs @ b) = code_points cs @ code_points b" by blast
    with True show ?thesis by simp
  next
    case False
    have "d # cs = [] \<or> \<not> is_high (last (d # cs)) \<or> b = [] \<or> \<not> is_low (hd b)"
      using "3.prems" by auto
    with False "3.IH"(2) have "code_points ((d # cs) @ b) = code_points (d # cs) @ code_points b"
      by blast
    then show ?thesis using False by auto
  qed
qed

lemma toUpperCase_append:
  assumes "a = [] \<or> \<not> is_high (last a) \<or> b = [] \<or> \<not> is_low (hd b)"
  shows "toUpperCase U (a @ b) = toUpperCase U a @ toUpperCase U b"
  by (simp add: toUpperCase_def code_points_append[OF assms])

lemma toUpperCase_ascii:
  "list_all (\<lambda>c. c < 128) w \<Longrightarrow> toUpperCase U w = map ascii_upper w"
proof (induction w rule: code_points.induct)
  case 1
  then show ?case by (simp add: toUpperCase_def)
next
  case (2 c)
  then show ?case by (simp add: toUpperCase_def upper_point_def)
next
  case (3 c d cs)
  then have "\<not> is_high c" by (simp add: is_high_def)
  with 3 show ?case by (simp add: toUpperCase_def upper_point_def)
qed

lemma space_not_surrogate: "is_space c \<Longrightarrow> \<not> is_high c \<and> \<not> is_low c"
  by (auto simp: is_space_def is_high_def is_low_def)

lemma small_not_surrogate: "c < 128 \<Longrightarrow> \<not> is_high c \<and> \<not> is_low c"
  by (auto simp: is_high_def is_low_def)

lemma lit_rest_iff: "lit_rest ci l s = Some r \<longleftrightarrow> (\<exists>w. s = w @ r \<and> list_all2 (chr_eq ci) l w)"
proof (induction ci l s rule: lit_rest.induct)
  case (1 ci s)
  then show ?case by auto
next
  case (2 ci p ps)
  then show ?case by (auto simp: list_all2_Cons1)
next
  case (3 ci p ps c cs)
  show ?case
  proof (cases "chr_eq ci p c")
    case True
    with 3 show ?thesis
      by (auto simp: list_all2_Cons1 Cons_eq_append_conv)
  next
    case False
    then show ?thesis
      by (auto simp: list_all2_Cons1 Cons_eq_append_conv)
  qed
qed

lemma star_rests_self: "s \<in> set (star_rests P s)"
  by (cases s) auto

lemma star_rests_iff: "r \<in> set (star_rests P s) \<longleftrightarrow> (\<exists>w. s = w @ r \<and> (\<forall>c\<in>set w. P c))"
proof (induction s)
  case Nil
  then show ?case by auto
next
  case (Cons c cs)
  show ?case
  proof
    assume "r \<in> set (star_rests P (c # cs))"
    then consider "r = c # cs" | "P c" "r \<in> set (star_rests P cs)"
      by (auto split: if_splits)
    then show "\<exists>w. c # cs = w @ r \<and> (\<forall>c\<in>set w. P c)"
    proof cases
      case 1
      then show ?thesis by (intro exI[of _ "[]"]) simp
    next
      case 2
      with Cons obtain w where "cs = w @ r" "\<forall>c\<in>set w. P c" by auto
      with 2 show ?thesis by (intro exI[of _ "c # w"]) simp
    qed
  next
    assume "\<exists>w. c # cs = w @ r \<and> (\<forall>c\<in>set w. P c)"
    then obtain w where w: "c # cs = w @ r" "\<forall>c\<in>set w. P c" by auto
    show "r \<in> set (star_rests P (c # cs))"
    proof (cases w)
      case Nil
      with w have "r = c # cs" by simp
      then show ?thesis using star_rests_self[of r P] by simp
    next
      case (Cons x xs)
      with w have "x = c" "cs = xs @ r" "P c" "\<forall>c\<in>set xs. P c" by auto
      with Cons.IH show ?thesis by auto
    qed
  qed
qed

lemma star_rests_hd: "star_rests P s = s # tl (star_rests P s)"
  by (cases s) auto

lemma plus_rests_iff:
  "r \<in> set (tl (star_rests P s)) \<longleftrightarrow> (\<exists>w. s = w @ r \<and> w \<noteq> [] \<and> (\<forall>c\<in>set w. P c))"
proof (cases s)
  case Nil
  then show ?thesis by auto
next
  case (Cons c cs)
  show ?thesis
  proof
    assume "r \<in> set (tl (star_rests P s))"
    with Cons have "P c" "r \<in> set (star_rests P cs)" by (auto split: if_splits)
    then obtain w where "cs = w @ r" "\<forall>c\<in>set w. P c" by (auto simp: star_rests_iff)
    with Cons \<open>P c\<close> show "\<exists>w. s = w @ r \<and> w \<noteq> [] \<and> (\<forall>c\<in>set w. P c)"
      by (intro exI[of _ "c # w"]) simp
  next
    assume "\<exists>w. s = w @ r \<and> w \<noteq> [] \<and> (\<forall>c\<in>set w. P c)"
    then obtain w where w: "s = w @ r" "w \<noteq> []" "\<forall>c\<in>set w. P c" by auto
    then obtain x xs where "w = x # xs" by (cases w) auto
    with w Cons have "x = c" "cs = xs @ r" "P c" "\<forall>c\<in>set xs. P c" by auto
    then have "r \<in> set (star_rests P cs)" by (auto simp: star_rests_iff)
    with Cons \<open>P c\<close> show "r \<in> set (tl (star_rests P s))" by simp
  qed
qed

lemma rests_iff: "r \<in> set (rests ci x s) \<longleftrightarrow> (\<exists>w\<in>lang ci x. s = w @ r)"
proof (induction x arbitrary: s r)
  case (Lit l)
  show ?case using lit_rest_iff[of ci l s r] by (auto split: option.splits)
next
  case (Star k)
  show ?case by (auto simp: star_rests_iff)
next
  case (Plus k)
  show ?case by (auto simp: plus_rests_iff)
next
  case (Seq a b)
  show ?case
  proof
    assume "r \<in> set (rests ci (Seq a b) s)"
    then obtain m where "m \<in> set (rests ci a s)" "r \<in> set (rests ci b m)" by auto
    with Seq obtain u v where "u \<in> lang ci a" "s = u @ m" "v \<in> lang ci b" "m = v @ r"
      by blast
    then show "\<exists>w\<in>lang ci (Seq a b). s = w @ r"
      by (intro bexI[of _ "u @ v"]) auto
  next
    assume "\<exists>w\<in>lang ci (Seq a b). s = w @ r"
    then obtain u v where uv: "u \<in> lang ci a" "v \<in> lang ci b" "s = (u @ v) @ r" by auto
    then have "v @ r \<in> set (rests ci a s)" using Seq.IH(1)[of "v @ r" s] by auto
    moreover have "r \<in> set (rests ci b (v @ r))" using Seq.IH(2)[of r "v @ r"] uv by auto
    ultimately show "r \<in> set (rests ci (Seq a b) s)" by auto
  qed
next
  case (Alt a b)
  then show ?case by auto
qed

lemma tails_iff: "t \<in> set (tails s) \<longleftrightarrow> (\<exists>u. s = u @ t)"
proof (induction s)
  case Nil
  then show ?case by auto
next
  case (Cons c cs)
  then show ?case by (auto simp: Cons_eq_append_conv)
qed

lemma rx_test_iff: "rx_test ci x s \<longleftrightarrow> (\<exists>u w v. s = u @ w @ v \<and> w \<in> lang ci x)"
proof
  assume "rx_test ci x s"
  then obtain t where t: "t \<in> set (tails s)" "rests ci x t \<noteq> []"
    by (auto simp: rx_test_def list_ex_iff)
  then obtain r where "r \<in> set (rests ci x t)" by (cases "rests ci x t") auto
  then obtain w where "w \<in> lang ci x" "t = w @ r" by (auto simp: rests_iff)
  moreover from t obtain u where "s = u @ t" by (auto simp: tails_iff)
  ultimately show "\<exists>u w v. s = u @ w @ v \<and> w \<in> lang ci x" by blast
next
  assume "\<exists>u w v. s = u @ w @ v \<and> w \<in> lang ci x"
  then obtain u w v where *: "s = u @ w @ v" "w \<in> lang ci x" by blast
  then have "w @ v \<in> set (tails s)" by (auto simp: tails_iff)
  moreover have "v \<in> set (rests ci x (w @ v))" using * by (auto simp: rests_iff)
  then have "rests ci x (w @ v) \<noteq> []" by auto
  ultimately show "rx_test ci x s" unfolding rx_test_def list_ex_iff by blast
qed

lemma rx_full_iff: "rx_full ci x s \<longleftrightarrow> s \<in> lang ci x"
  by (auto simp: rx_full_def rests_iff)

lemma lit_ci_iff: "list_all2 (chr_eq True) l w \<longleftrightarrow> spells l w"
  by (auto simp: list_all2_conv_all_nth chr_eq_def spells_def asc_def list_eq_iff_nth_eq)

lemma lit_cs_iff: "list_all2 (chr_eq False) l w \<longleftrightarrow> w = asc l"
  by (auto simp: list_all2_conv_all_nth chr_eq_def asc_def list_eq_iff_nth_eq)

lemma lang_SeqI: "u \<in> lang ci a \<Longrightarrow> v \<in> lang ci b \<Longrightarrow> u @ v \<in> lang ci (Seq a b)"
  by auto

lemma lang_Star_Nil: "[] \<in> lang ci (Star k)"
  by simp

lemma lang_Lit_spells: "spells k w \<Longrightarrow> w \<in> lang True (Lit k)"
  by (simp add: lit_ci_iff)

lemma lang_Plus_single: "in_class k c \<Longrightarrow> [c] \<in> lang ci (Plus k)"
  by simp

lemma lang_Seq_iff: "w \<in> lang ci (Seq a b) \<longleftrightarrow> (\<exists>x y. w = x @ y \<and> x \<in> lang ci a \<and> y \<in> lang ci b)"
  by auto

lemma lang_Lit_cs: "w \<in> lang False (Lit l) \<longleftrightarrow> w = asc l"
  by (simp add: lit_cs_iff)

lemma lang_Plus_iff: "w \<in> lang ci (Plus k) \<longleftrightarrow> w \<noteq> [] \<and> (\<forall>c\<in>set w. in_class k c)"
  by simp

lemma spells_paren: "spells ''('' w \<longleftrightarrow> w = [40]"
proof -
  have "ascii_upper c = 40 \<longleftrightarrow> c = 40" for c by (auto simp: ascii_upper_def)
  then show ?thesis
    by (cases w) (auto simp: spells_def asc_def ascii_upper_def)
qed

lemma lang_paren: "w \<in> lang True (Lit ''('') \<longleftrightarrow> w = [40]"
  by (simp add: lit_ci_iff spells_paren)

section \<open>What each deny pattern finds\<close>

lemma test_kw_then_space: "rx_test True (kw_then_space k) t \<longleftrightarrow> followed_by_space k t"
proof
  assume "rx_test True (kw_then_space k) t"
  then obtain u w v where uwv: "t = u @ w @ v" "w \<in> lang True (kw_then_space k)"
    by (auto simp: rx_test_iff)
  then obtain a m b where amb: "w = a @ m @ b" "spells k m" "b \<noteq> []" "\<forall>x\<in>set b. is_space x"
    by (auto simp: kw_then_space_def lit_ci_iff)
  then obtain c b' where b: "b = c # b'" by (cases b) auto
  with uwv amb have "t = (u @ a) @ m @ c # (b' @ v)" "is_space c" by auto
  with amb(2) show "followed_by_space k t" unfolding followed_by_space_def by blast
next
  assume "followed_by_space k t"
  then obtain u w c v where *: "t = u @ w @ c # v" "spells k w" "is_space c"
    by (auto simp: followed_by_space_def)
  have "[] @ w @ [c] \<in> lang True (kw_then_space k)"
    unfolding kw_then_space_def using *(3)
    by (intro lang_SeqI lang_Star_Nil lang_Lit_spells[OF *(2)] lang_Plus_single) simp
  moreover have "t = u @ ([] @ w @ [c]) @ v" using * by simp
  ultimately show "rx_test True (kw_then_space k) t" unfolding rx_test_iff by blast
qed

lemma test_kw_bare: "rx_test True (kw_bare k) t \<longleftrightarrow> occurs k t"
proof
  assume "rx_test True (kw_bare k) t"
  then obtain u w v where uwv: "t = u @ w @ v" "w \<in> lang True (kw_bare k)"
    by (auto simp: rx_test_iff)
  then obtain a m where am: "w = a @ m" "spells k m"
    by (auto simp: kw_bare_def lit_ci_iff)
  with uwv have "t = (u @ a) @ m @ v" by auto
  with am(2) show "occurs k t" unfolding occurs_def by blast
next
  assume "occurs k t"
  then obtain u w v where *: "t = u @ w @ v" "spells k w" by (auto simp: occurs_def)
  have "[] @ w \<in> lang True (kw_bare k)"
    unfolding kw_bare_def
    by (intro lang_SeqI lang_Star_Nil lang_Lit_spells[OF *(2)])
  moreover have "t = u @ ([] @ w) @ v" using * by simp
  ultimately show "rx_test True (kw_bare k) t" unfolding rx_test_iff by blast
qed

lemma test_kw_opt_space: "rx_test True (kw_opt_space k) t \<longleftrightarrow> occurs k t"
proof
  assume "rx_test True (kw_opt_space k) t"
  then obtain u w v where uwv: "t = u @ w @ v" "w \<in> lang True (kw_opt_space k)"
    by (auto simp: rx_test_iff)
  then obtain a m b where am: "w = a @ m @ b" "spells k m"
    by (auto simp: kw_opt_space_def lit_ci_iff)
  with uwv have "t = (u @ a) @ m @ (b @ v)" by auto
  with am(2) show "occurs k t" unfolding occurs_def by blast
next
  assume "occurs k t"
  then obtain u w v where *: "t = u @ w @ v" "spells k w" by (auto simp: occurs_def)
  have "[] @ w @ [] \<in> lang True (kw_opt_space k)"
    unfolding kw_opt_space_def
    by (intro lang_SeqI lang_Star_Nil lang_Lit_spells[OF *(2)])
  moreover have "t = u @ ([] @ w @ []) @ v" using * by simp
  ultimately show "rx_test True (kw_opt_space k) t" unfolding rx_test_iff by blast
qed

lemma test_kw2_then_space: "rx_test True (kw2_then_space a b) t \<longleftrightarrow> two_words a b t"
proof
  assume "rx_test True (kw2_then_space a b) t"
  then obtain u w v where uwv: "t = u @ w @ v" "w \<in> lang True (kw2_then_space a b)"
    by (auto simp: rx_test_iff)
  then obtain p m1 ws m2 e where w: "w = p @ m1 @ ws @ m2 @ e"
      "spells a m1" "ws \<noteq> []" "\<forall>x\<in>set ws. is_space x"
      "spells b m2" "e \<noteq> []" "\<forall>x\<in>set e. is_space x"
    by (auto simp: kw2_then_space_def lit_ci_iff)
  then obtain c e' where e: "e = c # e'" by (cases e) auto
  with uwv w have "t = (u @ p) @ m1 @ ws @ m2 @ c # (e' @ v)" "is_space c" by auto
  with w show "two_words a b t" unfolding two_words_def by blast
next
  assume "two_words a b t"
  then obtain u wa ws wb c v where *: "t = u @ wa @ ws @ wb @ c # v" "spells a wa"
      "spells b wb" "ws \<noteq> []" "\<forall>x\<in>set ws. is_space x" "is_space c"
    by (auto simp: two_words_def)
  have ws: "ws \<in> lang True (Plus Space)" using * by simp
  have c: "[c] \<in> lang True (Plus Space)" using * by simp
  have "[] @ wa @ ws @ wb @ [c] \<in> lang True (kw2_then_space a b)"
    unfolding kw2_then_space_def
    by (intro lang_SeqI lang_Star_Nil lang_Lit_spells[OF *(2)] lang_Lit_spells[OF *(3)] ws c)
  moreover have "t = u @ ([] @ wa @ ws @ wb @ [c]) @ v" using * by simp
  ultimately show "rx_test True (kw2_then_space a b) t" unfolding rx_test_iff by blast
qed

lemma test_kw_call: "rx_test True (kw_call k) t \<longleftrightarrow> called k t"
proof
  assume "rx_test True (kw_call k) t"
  then obtain u w v where uwv: "t = u @ w @ v" "w \<in> lang True (kw_call k)"
    by (auto simp: rx_test_iff)
  then obtain p m e where w: "w = p @ m @ e" "spells k m"
      "(e \<noteq> [] \<and> (\<forall>x\<in>set e. is_space x)) \<or>
       (\<exists>ws. e = ws @ [40] \<and> (\<forall>x\<in>set ws. is_space x))"
    unfolding kw_call_def lang.simps(4,5) lang_paren
    by (fastforce simp: lit_ci_iff)
  from w(3) show "called k t"
  proof
    assume e: "e \<noteq> [] \<and> (\<forall>x\<in>set e. is_space x)"
    then obtain c e' where "e = c # e'" by (cases e) auto
    with uwv w e have "t = (u @ p) @ m @ c # (e' @ v)" "is_space c" by auto
    with w(2) have "followed_by_space k t" unfolding followed_by_space_def by blast
    then show ?thesis by (simp add: called_def)
  next
    assume "\<exists>ws. e = ws @ [40] \<and> (\<forall>x\<in>set ws. is_space x)"
    then obtain ws where "e = ws @ [40]" "\<forall>x\<in>set ws. is_space x" by blast
    with uwv w have "t = (u @ p) @ m @ ws @ 40 # v" by auto
    with \<open>\<forall>x\<in>set ws. is_space x\<close> w(2) show ?thesis unfolding called_def by blast
  qed
next
  assume "called k t"
  then consider u w c v where "t = u @ w @ c # v" "spells k w" "is_space c"
    | u w ws v where "t = u @ w @ ws @ 40 # v" "spells k w" "\<forall>x\<in>set ws. is_space x"
    by (auto simp: called_def followed_by_space_def)
  then show "rx_test True (kw_call k) t"
  proof cases
    case 1
    have "[c] \<in> lang True (Alt (Plus Space) (Seq (Star Space) (Lit ''('')))"
      using 1 by simp
    then have "[] @ w @ [c] \<in> lang True (kw_call k)"
      unfolding kw_call_def
      by (intro lang_SeqI lang_Star_Nil lang_Lit_spells[OF 1(2)])
    moreover have "t = u @ ([] @ w @ [c]) @ v" using 1 by simp
    ultimately show ?thesis unfolding rx_test_iff by blast
  next
    case 2
    have "[40] \<in> lang True (Lit ''('')" by (simp only: lang_paren)
    moreover have "ws \<in> lang True (Star Space)" using 2 by simp
    ultimately have "ws @ [40] \<in> lang True (Seq (Star Space) (Lit ''(''))"
      by (rule lang_SeqI[rotated])
    then have "ws @ [40] \<in> lang True (Alt (Plus Space) (Seq (Star Space) (Lit ''('')))"
      by simp
    then have "[] @ w @ (ws @ [40]) \<in> lang True (kw_call k)"
      unfolding kw_call_def
      by (intro lang_SeqI lang_Star_Nil lang_Lit_spells[OF 2(2)])
    moreover have "t = u @ ([] @ w @ (ws @ [40])) @ v" using 2 by simp
    ultimately show ?thesis unfolding rx_test_iff by blast
  qed
qed

section \<open>The classifier (claims C3 and C4)\<close>

lemma first_match_Cons: "first_match (p # ps) s \<longleftrightarrow> rx_test True p s \<or> first_match ps s"
  by simp

lemma first_match_base: "first_match basePatterns t \<longleftrightarrow> denied_form False t"
  unfolding basePatterns_def first_match_Cons first_match.simps(1) denied_form_def
  by (simp only: test_kw_then_space test_kw2_then_space test_kw_call test_kw_bare
      test_kw_opt_space simp_thms)

lemma first_match_append: "first_match (ps @ qs) s \<longleftrightarrow> first_match ps s \<or> first_match qs s"
  by (induction ps) auto

lemma first_match_readOnly:
  "first_match readOnlyPatterns t \<longleftrightarrow>
     followed_by_space ''INSERT'' t \<or> followed_by_space ''UPDATE'' t \<or>
     followed_by_space ''DELETE'' t"
  unfolding readOnlyPatterns_def first_match_Cons first_match.simps(1)
  by (simp only: test_kw_then_space simp_thms)

lemma denied_form_split:
  "denied_form ro t \<longleftrightarrow> denied_form False t \<or>
      (ro \<and> (followed_by_space ''INSERT'' t \<or> followed_by_space ''UPDATE'' t \<or>
             followed_by_space ''DELETE'' t))"
  unfolding denied_form_def by (cases ro) simp_all

lemma isSafeQuery_iff:
  "isSafeQuery U env q \<longleftrightarrow> \<not> denied_form (readOnlyMode env) (toUpperCase U (trim q))"
proof (cases "readOnlyMode env")
  case True
  then show ?thesis
    unfolding isSafeQuery_def Let_def unsafePatterns_def
    by (subst denied_form_split)
      (simp add: first_match_append first_match_base first_match_readOnly)
next
  case False
  then show ?thesis
    unfolding isSafeQuery_def Let_def unsafePatterns_def
    by (simp add: first_match_base)
qed

lemma trim_part:
  "\<exists>a b. q = a @ trim q @ b \<and> (\<forall>x\<in>set a. is_space x) \<and> (\<forall>x\<in>set b. is_space x)"
proof -
  define d where "d = dropWhile is_space q"
  define e where "e = rev (takeWhile is_space (rev d))"
  have "q = takeWhile is_space q @ d" by (simp add: d_def)
  moreover have "d = trim q @ e"
    unfolding trim_def d_def[symmetric] e_def
    by (metis rev_append rev_rev_ident takeWhile_dropWhile_id)
  ultimately have "q = takeWhile is_space q @ trim q @ e" by simp
  moreover have "\<forall>x\<in>set (takeWhile is_space q). is_space x" by (auto dest: set_takeWhileD)
  moreover have "\<forall>x\<in>set e. is_space x" unfolding e_def by (auto dest: set_takeWhileD)
  ultimately show ?thesis by blast
qed

lemma toUpperCase_trim:
  "\<exists>x y. toUpperCase U q = x @ toUpperCase U (trim q) @ y"
proof -
  obtain a b where q: "q = a @ trim q @ b" and a: "\<forall>x\<in>set a. is_space x"
      and b: "\<forall>x\<in>set b. is_space x"
    using trim_part by blast
  have 1: "a = [] \<or> \<not> is_high (last a) \<or> trim q @ b = [] \<or> \<not> is_low (hd (trim q @ b))"
    using a space_not_surrogate by (cases "a = []") auto
  have 2: "trim q = [] \<or> \<not> is_high (last (trim q)) \<or> b = [] \<or> \<not> is_low (hd b)"
    using b space_not_surrogate by (cases "b = []") auto
  have "toUpperCase U q = toUpperCase U (a @ trim q @ b)" using q by simp
  also have "\<dots> = toUpperCase U a @ toUpperCase U (trim q @ b)"
    by (rule toUpperCase_append[OF 1])
  also have "\<dots> = toUpperCase U a @ toUpperCase U (trim q) @ toUpperCase U b"
    by (simp only: toUpperCase_append[OF 2])
  finally show ?thesis by blast
qed

lemma occurs_trim_mentions:
  assumes "occurs k (toUpperCase U (trim q))"
  shows "mentions U k q"
proof -
  from assms obtain u w v where "toUpperCase U (trim q) = u @ w @ v" "spells k w"
    by (auto simp: occurs_def)
  moreover obtain x y where "toUpperCase U q = x @ toUpperCase U (trim q) @ y"
    using toUpperCase_trim by blast
  ultimately have "toUpperCase U q = (x @ u) @ w @ (v @ y)" "spells k w" by simp_all
  then show ?thesis unfolding mentions_def occurs_def by blast
qed

lemma followed_by_space_occurs: "followed_by_space k t \<Longrightarrow> occurs k t"
  unfolding followed_by_space_def occurs_def by blast

lemma called_occurs: "called k t \<Longrightarrow> occurs k t"
  unfolding called_def followed_by_space_def occurs_def by blast

lemma two_words_trim_mentions2:
  assumes "two_words a b (toUpperCase U (trim q))"
  shows "mentions2 U a b q"
proof -
  from assms obtain u wa ws wb c v where *:
      "toUpperCase U (trim q) = u @ wa @ ws @ wb @ c # v" "spells a wa" "spells b wb"
      "ws \<noteq> []" "\<forall>x\<in>set ws. is_space x"
    by (auto simp: two_words_def)
  obtain x y where "toUpperCase U q = x @ toUpperCase U (trim q) @ y"
    using toUpperCase_trim by blast
  with * have "toUpperCase U q = (x @ u) @ wa @ ws @ wb @ (c # v @ y)" by simp
  with * show ?thesis unfolding mentions2_def by blast
qed

lemma token_free_not_denied:
  assumes "token_free U q"
  shows "\<not> denied_form False (toUpperCase U (trim q))"
  using assms unfolding token_free_def denied_form_def
  by (auto dest!: followed_by_space_occurs called_occurs occurs_trim_mentions
      two_words_trim_mentions2)

lemma mentions_code: "mentions U k q \<longleftrightarrow> rx_test True (kw_bare k) (toUpperCase U q)"
  by (simp add: mentions_def test_kw_bare)

lemma mentions2_code:
  "mentions2 U a b q \<longleftrightarrow>
     rx_test True (Seq (Lit a) (Seq (Plus Space) (Lit b))) (toUpperCase U q)"
proof
  assume "mentions2 U a b q"
  then obtain u wa ws wb v where *: "toUpperCase U q = u @ wa @ ws @ wb @ v" "spells a wa"
      "spells b wb" "ws \<noteq> []" "\<forall>x\<in>set ws. is_space x"
    by (auto simp: mentions2_def)
  have "ws \<in> lang True (Plus Space)" using * by simp
  then have "wa @ ws @ wb \<in> lang True (Seq (Lit a) (Seq (Plus Space) (Lit b)))"
    by (intro lang_SeqI lang_Lit_spells[OF *(2)] lang_Lit_spells[OF *(3)])
  moreover have "toUpperCase U q = u @ (wa @ ws @ wb) @ v" using * by simp
  ultimately show "rx_test True (Seq (Lit a) (Seq (Plus Space) (Lit b))) (toUpperCase U q)"
    unfolding rx_test_iff by blast
next
  assume "rx_test True (Seq (Lit a) (Seq (Plus Space) (Lit b))) (toUpperCase U q)"
  then obtain u w v where uwv: "toUpperCase U q = u @ w @ v"
      "w \<in> lang True (Seq (Lit a) (Seq (Plus Space) (Lit b)))"
    unfolding rx_test_iff by blast
  from uwv(2) obtain wa ws wb where "w = wa @ ws @ wb" "spells a wa" "spells b wb"
      "ws \<noteq> []" "\<forall>x\<in>set ws. is_space x"
    by (auto simp: lit_ci_iff)
  with uwv(1) have "toUpperCase U q = u @ wa @ ws @ wb @ v \<and> spells a wa \<and> spells b wb \<and>
      ws \<noteq> [] \<and> (\<forall>x\<in>set ws. is_space x)"
    by simp
  then show "mentions2 U a b q" unfolding mentions2_def by blast
qed

lemma dropWhile_keeps:
  "m \<noteq> [] \<Longrightarrow> \<not> P (hd m) \<Longrightarrow> \<exists>a'. dropWhile P (a @ m @ b) = a' @ m @ b"
proof (induction a)
  case Nil
  then show ?case by (cases m) auto
next
  case (Cons x a)
  then obtain a' where "dropWhile P (a @ m @ b) = a' @ m @ b" by blast
  then show ?case by (cases "P x") (auto intro: exI[of _ "x # a"])
qed

lemma trim_keeps:
  assumes "q = a @ m @ b" "m \<noteq> []" "\<not> is_space (hd m)" "\<not> is_space (last m)"
  shows "\<exists>a' b'. trim q = a' @ m @ b'"
proof -
  obtain a' where 1: "dropWhile is_space q = a' @ m @ b"
    using dropWhile_keeps[of m is_space a b] assms by blast
  have "rev m \<noteq> []" "\<not> is_space (hd (rev m))" using assms by (simp_all add: hd_rev)
  then obtain b' where "dropWhile is_space (rev b @ rev m @ rev a') = b' @ rev m @ rev a'"
    using dropWhile_keeps[of "rev m" is_space "rev b" "rev a'"] by blast
  with 1 have "trim q = a' @ m @ rev b'" by (simp add: trim_def)
  then show ?thesis by blast
qed

lemma spells_upper: "spells k w \<Longrightarrow> spells k (map ascii_upper w)"
  by (simp add: spells_def ascii_upper_idem)

lemma spells_length: "spells k w \<Longrightarrow> length w = length k"
proof -
  assume "spells k w"
  then have "length (map ascii_upper w) = length (map ascii_upper (asc k))"
    by (simp only: spells_def)
  then show ?thesis by (simp add: asc_def)
qed

lemma spells_nth:
  assumes "spells k w" "i < length k"
  shows "ascii_upper (w ! i) = ascii_upper (of_char (k ! i))"
proof -
  have len: "length w = length k" using assms(1) by (rule spells_length)
  have "map ascii_upper w ! i = map ascii_upper (asc k) ! i"
    using assms(1) by (simp only: spells_def)
  with assms(2) len show ?thesis by (simp add: asc_def)
qed

lemma spells_ascii:
  assumes "spells k w" "list_all (\<lambda>p. (of_char p :: nat) < 128) k"
  shows "list_all (\<lambda>c. c < 128) w"
proof -
  have len: "length w = length k" using assms(1) by (rule spells_length)
  have "w ! i < 128" if "i < length w" for i
  proof -
    from that len have i: "i < length k" by simp
    then have "(of_char (k ! i) :: nat) < 128" using assms(2) by (simp add: list_all_length)
    then have "ascii_upper (of_char (k ! i)) < 128" by (simp only: ascii_upper_small)
    then have "ascii_upper (w ! i) < 128" by (simp only: spells_nth[OF assms(1) i])
    then show ?thesis by (simp only: ascii_upper_small)
  qed
  then show ?thesis by (simp add: list_all_length)
qed

lemma occurs_raw:
  assumes "occurs k q" "k \<noteq> []" "list_all (\<lambda>p. (of_char p :: nat) < 128) k"
    "\<not> is_space (of_char (hd k))" "\<not> is_space (of_char (last k))"
  shows "occurs k (toUpperCase U (trim q))"
proof -
  from assms(1) obtain u w v where q: "q = u @ w @ v" and sp: "spells k w"
    by (auto simp: occurs_def)
  have len: "length w = length k" using sp by (rule spells_length)
  with assms(2) have wne: "w \<noteq> []" by auto
  have small: "list_all (\<lambda>c. c < 128) w" using sp assms(3) by (rule spells_ascii)
  have "ascii_upper (w ! 0) = ascii_upper (of_char (k ! 0))"
    using assms(2) by (intro spells_nth[OF sp]) simp
  then have "ascii_upper (hd w) = ascii_upper (of_char (hd k))"
    using wne assms(2) by (simp add: hd_conv_nth)
  then have "is_space (hd w) = is_space (of_char (hd k))"
    using is_space_ascii_upper[of "hd w"] is_space_ascii_upper[of "of_char (hd k)"] by simp
  then have h: "\<not> is_space (hd w)"
    using assms(4) by simp
  have "ascii_upper (w ! (length k - 1)) = ascii_upper (of_char (k ! (length k - 1)))"
    using assms(2) by (intro spells_nth[OF sp]) simp
  then have "ascii_upper (last w) = ascii_upper (of_char (last k))"
    using wne assms(2) len by (simp add: last_conv_nth)
  then have "is_space (last w) = is_space (of_char (last k))"
    using is_space_ascii_upper[of "last w"] is_space_ascii_upper[of "of_char (last k)"] by simp
  then have l: "\<not> is_space (last w)"
    using assms(5) by simp
  obtain a' b' where t: "trim q = a' @ w @ b'" using trim_keeps[OF q wne h l] by blast
  have "hd w < 128" "last w < 128"
    using small wne by (simp_all add: list_all_iff)
  then have ns: "\<not> is_low (hd w)" "\<not> is_high (last w)"
    using small_not_surrogate by blast+
  have 1: "a' = [] \<or> \<not> is_high (last a') \<or> w @ b' = [] \<or> \<not> is_low (hd (w @ b'))"
    using ns wne by simp
  have 2: "w = [] \<or> \<not> is_high (last w) \<or> b' = [] \<or> \<not> is_low (hd b')"
    using ns by simp
  have "toUpperCase U (trim q) = toUpperCase U a' @ toUpperCase U (w @ b')"
    unfolding t by (rule toUpperCase_append[OF 1])
  also have "\<dots> = toUpperCase U a' @ toUpperCase U w @ toUpperCase U b'"
    by (simp only: toUpperCase_append[OF 2])
  also have "\<dots> = toUpperCase U a' @ map ascii_upper w @ toUpperCase U b'"
    by (simp only: toUpperCase_ascii[OF small])
  finally show ?thesis unfolding occurs_def using spells_upper[OF sp] by blast
qed

text \<open>
  C3, as the code has it: a query is denied, for both values of the read-only flag,
  whenever its trimmed, upper-cased text holds a denied keyword in the form its pattern
  asks for (\<open>denied_form False\<close>): DROP, TRUNCATE, GRANT, REVOKE or DENY followed by white
  space; ALTER ROLE, CREATE LOGIN, ALTER LOGIN, CREATE USER or ALTER USER with white space
  between the words and after them; EXEC or EXECUTE followed by white space or by an
  opening parenthesis; and whenever the query itself holds xp_cmdshell, sp_configure or
  RECONFIGURE, in any mixture of cases, anywhere and whatever surrounds them. This holds
  for every upper-case table \<open>U\<close>.
\<close>

theorem isSafeQuery_denied:
  "(denied_form False (toUpperCase U (trim q)) \<longrightarrow> isSafeQuery U env q = False) \<and>
   (occurs ''xp_cmdshell'' q \<or> occurs ''sp_configure'' q \<or> occurs ''RECONFIGURE'' q
      \<longrightarrow> isSafeQuery U env q = False)"
proof (intro conjI impI)
  assume "denied_form False (toUpperCase U (trim q))"
  then have "denied_form (readOnlyMode env) (toUpperCase U (trim q))"
    by (subst denied_form_split) simp
  then show "isSafeQuery U env q = False" by (simp add: isSafeQuery_iff)
next
  assume "occurs ''xp_cmdshell'' q \<or> occurs ''sp_configure'' q \<or> occurs ''RECONFIGURE'' q"
  then have "occurs ''xp_cmdshell'' (toUpperCase U (trim q)) \<or>
      occurs ''sp_configure'' (toUpperCase U (trim q)) \<or>
      occurs ''RECONFIGURE'' (toUpperCase U (trim q))"
    by (auto dest!: occurs_raw[where U = U] simp: is_space_def)
  then have "denied_form (readOnlyMode env) (toUpperCase U (trim q))"
    unfolding denied_form_def by blast
  then show "isSafeQuery U env q = False" by (simp add: isSafeQuery_iff)
qed

theorem isSafeQuery_denied_witness:
  "denied_form False (toUpperCase sample_upper (trim (asc ''select 1; drop table users ''))) \<and>
   isSafeQuery sample_upper (Some (asc ''true'')) (asc ''select 1; drop table users '') = False \<and>
   occurs ''xp_cmdshell'' (asc ''select[xp_CmdShell]'') \<and>
   isSafeQuery sample_upper None (asc ''select[xp_CmdShell]'') = False"
proof -
  have "followed_by_space ''DROP''
      (toUpperCase sample_upper (trim (asc ''select 1; drop table users '')))"
    unfolding test_kw_then_space[symmetric] by code_simp
  then have d: "denied_form False
      (toUpperCase sample_upper (trim (asc ''select 1; drop table users '')))"
    unfolding denied_form_def by simp
  have m: "occurs ''xp_cmdshell'' (asc ''select[xp_CmdShell]'')"
    unfolding test_kw_bare[symmetric] by code_simp
  show ?thesis
    using d m
      isSafeQuery_denied[of sample_upper "asc ''select 1; drop table users ''" "Some (asc ''true'')"]
      isSafeQuery_denied[of sample_upper "asc ''select[xp_CmdShell]''" None]
    by blast
qed

theorem isSafeQuery_denied_counterexample:
  "mentions sample_upper ''DROP'' (asc ''DROP/**/TABLE users'') \<and>
   occurs ''DROP'' (asc ''DROP/**/TABLE users'') \<and>
   isSafeQuery sample_upper None (asc ''DROP/**/TABLE users'') = True \<and>
   isSafeQuery sample_upper (Some (asc ''true'')) (asc ''DROP/**/TABLE users'') = True"
proof -
  have "mentions sample_upper ''DROP'' (asc ''DROP/**/TABLE users'')"
    unfolding mentions_code by code_simp
  moreover have "occurs ''DROP'' (asc ''DROP/**/TABLE users'')"
    unfolding test_kw_bare[symmetric] by code_simp
  moreover have "isSafeQuery sample_upper None (asc ''DROP/**/TABLE users'') = True"
    by code_simp
  moreover have "isSafeQuery sample_upper (Some (asc ''true'')) (asc ''DROP/**/TABLE users'') = True"
    by code_simp
  ultimately show ?thesis by blast
qed

text \<open>
  Some queries with characters beyond ASCII. A trailing no-break space (U+00A0) is
  trimmed, so that nothing follows the keyword; inside the text it counts as white
  space (its upper case is itself); and U+00DF, whose upper case is \<open>SS\<close>, completes
  \<open>SP_CONFIGURE\<close>.
\<close>

lemma isSafeQuery_examples:
  "isSafeQuery U None (asc ''drop '' @ [160]) = True"
  "isSafeQuery U (Some (asc ''true'')) (asc ''delete '' @ [160]) = True"
  "isSafeQuery sample_upper None (asc ''drop'' @ [160] @ asc ''table t'') = False"
  "isSafeQuery sample_upper None ([223] @ asc ''p_configure'') = False"
  by code_simp+

text \<open>
  C4, as the code has it. A query that mentions no denied keyword (\<open>token_free\<close>) is safe
  when read-only mode is off; in read-only mode a query whose trimmed, upper-cased text
  holds INSERT, UPDATE or DELETE followed by white space is unsafe; and a query that
  mentions neither a denied keyword nor INSERT, UPDATE or DELETE is safe in both modes.
  This holds for every upper-case table \<open>U\<close>.
\<close>

theorem isSafeQuery_token_free:
  "(token_free U q \<and> \<not> readOnlyMode env \<longrightarrow> isSafeQuery U env q = True) \<and>
   (readOnlyMode env \<and>
      (followed_by_space ''INSERT'' (toUpperCase U (trim q)) \<or>
       followed_by_space ''UPDATE'' (toUpperCase U (trim q)) \<or>
       followed_by_space ''DELETE'' (toUpperCase U (trim q)))
      \<longrightarrow> isSafeQuery U env q = False) \<and>
   (token_free U q \<and> dml_free U q \<longrightarrow> isSafeQuery U env q = True)"
proof (intro conjI impI)
  assume "token_free U q \<and> \<not> readOnlyMode env"
  then show "isSafeQuery U env q = True"
    by (simp add: isSafeQuery_iff token_free_not_denied)
next
  assume "readOnlyMode env \<and>
      (followed_by_space ''INSERT'' (toUpperCase U (trim q)) \<or>
       followed_by_space ''UPDATE'' (toUpperCase U (trim q)) \<or>
       followed_by_space ''DELETE'' (toUpperCase U (trim q)))"
  then have "denied_form (readOnlyMode env) (toUpperCase U (trim q))"
    by (subst denied_form_split) simp
  then show "isSafeQuery U env q = False" by (simp add: isSafeQuery_iff)
next
  assume a: "token_free U q \<and> dml_free U q"
  then have "\<not> denied_form False (toUpperCase U (trim q))" by (simp add: token_free_not_denied)
  moreover have "\<not> followed_by_space ''INSERT'' (toUpperCase U (trim q))"
      "\<not> followed_by_space ''UPDATE'' (toUpperCase U (trim q))"
      "\<not> followed_by_space ''DELETE'' (toUpperCase U (trim q))"
    using a unfolding dml_free_def
    by (auto dest!: followed_by_space_occurs occurs_trim_mentions)
  ultimately have "\<not> denied_form (readOnlyMode env) (toUpperCase U (trim q))"
    by (subst denied_form_split) simp
  then show "isSafeQuery U env q = True" by (simp add: isSafeQuery_iff)
qed

lemma token_free_code:
  "token_free U q \<longleftrightarrow>
     list_all (\<lambda>k. \<not> rx_test True (kw_bare k) (toUpperCase U q))
       [''DROP'', ''TRUNCATE'', ''EXEC'', ''EXECUTE'', ''xp_cmdshell'', ''sp_configure'',
        ''RECONFIGURE'', ''GRANT'', ''REVOKE'', ''DENY''] \<and>
     list_all (\<lambda>(a, b). \<not> rx_test True (Seq (Lit a) (Seq (Plus Space) (Lit b))) (toUpperCase U q))
       [(''ALTER'', ''ROLE''), (''CREATE'', ''LOGIN''), (''ALTER'', ''LOGIN''),
        (''CREATE'', ''USER''), (''ALTER'', ''USER'')]"
  unfolding token_free_def mentions_code mentions2_code by auto

lemma dml_free_code:
  "dml_free U q \<longleftrightarrow>
     list_all (\<lambda>k. \<not> rx_test True (kw_bare k) (toUpperCase U q))
       [''INSERT'', ''UPDATE'', ''DELETE'']"
  unfolding dml_free_def mentions_code by auto

theorem isSafeQuery_token_free_witness:
  "token_free sample_upper (asc ''select name from alter_log'') \<and> \<not> readOnlyMode None \<and>
   isSafeQuery sample_upper None (asc ''select name from alter_log'') = True \<and>
   readOnlyMode (Some (asc ''true'')) \<and>
   followed_by_space ''DELETE'' (toUpperCase sample_upper (trim (asc ''delete from t''))) \<and>
   isSafeQuery sample_upper (Some (asc ''true'')) (asc ''delete from t'') = False \<and>
   dml_free sample_upper (asc ''select name from alter_log'') \<and>
   isSafeQuery sample_upper (Some (asc ''true'')) (asc ''select name from alter_log'') = True"
proof -
  have tf: "token_free sample_upper (asc ''select name from alter_log'')"
    unfolding token_free_code by code_simp
  have df: "dml_free sample_upper (asc ''select name from alter_log'')"
    unfolding dml_free_code by code_simp
  have ro: "readOnlyMode (Some (asc ''true''))" "\<not> readOnlyMode None"
    by (simp_all add: readOnlyMode_def)
  have fs: "followed_by_space ''DELETE'' (toUpperCase sample_upper (trim (asc ''delete from t'')))"
    unfolding test_kw_then_space[symmetric] by code_simp
  show ?thesis
    using tf df ro fs
      isSafeQuery_token_free[of sample_upper "asc ''select name from alter_log''" None]
      isSafeQuery_token_free[of sample_upper "asc ''delete from t''" "Some (asc ''true'')"]
      isSafeQuery_token_free[of sample_upper "asc ''select name from alter_log''" "Some (asc ''true'')"]
    by blast
qed

theorem isSafeQuery_token_free_counterexample:
  "readOnlyMode (Some (asc ''true'')) \<and>
   mentions sample_upper ''DELETE'' (asc ''DELETE/**/FROM t'') \<and>
   isSafeQuery sample_upper (Some (asc ''true'')) (asc ''DELETE/**/FROM t'') = True"
proof -
  have "mentions sample_upper ''DELETE'' (asc ''DELETE/**/FROM t'')"
    unfolding mentions_code by code_simp
  moreover have "isSafeQuery sample_upper (Some (asc ''true'')) (asc ''DELETE/**/FROM t'') = True"
    by code_simp
  ultimately show ?thesis by (simp add: readOnlyMode_def)
qed

section \<open>The pool cache (claims C1 and C2)\<close>

lemma asc_eq_iff: "asc a = asc b \<longleftrightarrow> a = b"
  unfolding asc_def by (rule inj_map_eq_map) (simp add: inj_on_def)


lemma js_get_None: "js_get obj k = None \<longleftrightarrow> map_of obj k = None \<and> k \<notin> set prototype_names"
  by (auto simp: js_get_def split: option.splits)


lemma set_update_subset: "set (AList.update k v al) \<subseteq> insert (k, v) (set al)"
  by (induction al) auto

lemma set_delete_subset: "set (AList.delete k al) \<subseteq> set al"
  by (induction al) auto

lemma cache_ok_boot: "cache_ok (boot dbConfigs)"
  by (simp add: cache_ok_def boot_def)

lemma cache_ok_getPool:
  assumes "cache_ok s"
  shows "cache_ok (snd (getPool drv dbConfigs dbKey s))"
proof -
  let ?ok = "\<lambda>kp. pool_key (snd kp) = fst kp \<and> pool_id (snd kp) < Suc (next_id s) \<and>
                fst kp \<notin> set prototype_names"
  have mono: "list_all ?ok (pools s)"
    using assms by (auto simp: cache_ok_def list_all_iff)
  have upd: "list_all ?ok
      (AList.update k \<lparr>pool_id = next_id s, pool_config = c, pool_key = k\<rparr> (pools s))"
    if "k \<notin> set prototype_names" for k c
  proof -
    let ?p = "\<lparr>pool_id = next_id s, pool_config = c, pool_key = k\<rparr>"
    have "set (AList.update k ?p (pools s)) \<subseteq> insert (k, ?p) (set (pools s))"
      by (rule set_update_subset)
    then show ?thesis using mono that unfolding list_all_iff by fastforce
  qed
  show ?thesis
    using assms mono upd
    by (auto simp: getPool_def Let_def cache_ok_def js_get_None split: option.splits)
qed

lemma cache_ok_pool_close: "cache_ok s \<Longrightarrow> cache_ok (pool_close p s)"
  using set_delete_subset[of "pool_key p" "pools s"]
  by (auto simp: cache_ok_def pool_close_def driver_close_def evict_def list_all_iff)

lemma getPool_status: "connectionStatus (snd (getPool drv dbConfigs dbKey s)) = connectionStatus s"
  by (auto simp: getPool_def Let_def split: option.splits)

lemma getPool_issued: "issued (snd (getPool drv dbConfigs dbKey s)) = issued s"
  by (auto simp: getPool_def Let_def split: option.splits)

lemma getPool_result:
  "fst (getPool drv dbConfigs dbKey s) =
     (case resolve_config dbConfigs dbKey of
        None \<Rightarrow> Inl (asc ''No database configuration found.'')
      | Some config \<Rightarrow>
          (case js_get (pools s) (or_default dbKey) of
             Some m \<Rightarrow> Inr m
           | None \<Rightarrow>
               (case connect drv config (next_id s) of
                  Some msg \<Rightarrow> Inl msg
                | None \<Rightarrow> Inr (Own \<lparr>pool_id = next_id s, pool_config = config,
                                     pool_key = or_default dbKey\<rparr>))))"
  by (auto simp: getPool_def Let_def split: option.splits)

lemma set_entries: "set (entries obj) = set obj"
  by (auto simp: entries_def)

lemma entries_Nil: "entries obj = [] \<longleftrightarrow> obj = []"
  using set_entries[of obj] by (metis set_empty)

text \<open>
  What \<open>getPool\<close> does with a key that names nothing in a non-empty configuration, in
  general: it goes on with the first configuration of the enumeration, and so never
  fails for want of a configuration. \<open>getDbConfig\<close> throws for such a key.
\<close>

lemma resolve_config_unknown:
  assumes "js_get dbConfigs (prop_key dbKey) = None" "dbConfigs \<noteq> []"
  shows "resolve_config dbConfigs dbKey = Some (Own (snd (hd (entries dbConfigs))))"
proof -
  from assms(2) have "entries dbConfigs \<noteq> []" by (simp add: entries_Nil)
  then obtain kc rest where "entries dbConfigs = kc # rest" by (cases "entries dbConfigs") auto
  with assms(1) show ?thesis by (simp add: resolve_config_def)
qed

lemma unknown_key_getPool:
  assumes "js_get dbConfigs k = None" "dbConfigs \<noteq> []"
  shows "fst (getPool drv dbConfigs (Some k) s) =
     (case js_get (pools s) (or_default (Some k)) of
        Some m \<Rightarrow> Inr m
      | None \<Rightarrow>
          (case connect drv (Own (snd (hd (entries dbConfigs)))) (next_id s) of
             Some msg \<Rightarrow> Inl msg
           | None \<Rightarrow> Inr (Own \<lparr>pool_id = next_id s,
                                pool_config = Own (snd (hd (entries dbConfigs))),
                                pool_key = or_default (Some k)\<rparr>)))"
proof -
  have "resolve_config dbConfigs (Some k) = Some (Own (snd (hd (entries dbConfigs))))"
    using assms by (intro resolve_config_unknown) (simp_all add: prop_key_def)
  then show ?thesis by (simp add: getPool_result)
qed

lemma unknown_key_getDbConfig:
  assumes "js_get dbConfigs (toLowerCase L k) = None" "k \<noteq> []"
  shows "getDbConfig L dbConfigs (Some k) =
     Inl (asc ''[config] Invalid dbKey '' @ [39] @ k @ [39] @ asc ''. Available: '' @
          join_with (asc '', '') (own_keys dbConfigs))"
  using assms by (simp add: getDbConfig_def truthy_def Let_def)

text \<open>
  C1. The claim asks \<open>getPool\<close> to fail with a configuration error for a key that is not
  configured. With only \<open>maindb\<close> configured and the key \<open>reportingdb\<close>, \<open>getPool\<close> opens a
  pool with the settings of \<open>maindb\<close> and caches it under \<open>reportingdb\<close>, where
  \<open>getDbConfig\<close> of the configuration module, for the same key, throws "Invalid dbKey".
  The connection status is left as it was.
\<close>

theorem getPool_unknown_key_falls_back:
  "js_get [(asc ''maindb'', sample_config)] (asc ''reportingdb'') = None \<and>
   getPool good_driver [(asc ''maindb'', sample_config)] (Some (asc ''reportingdb''))
       (boot [(asc ''maindb'', sample_config)]) =
     (Inr (Own \<lparr>pool_id = 0, pool_config = Own sample_config, pool_key = asc ''reportingdb''\<rparr>),
      (boot [(asc ''maindb'', sample_config)])
        \<lparr>next_id := 1,
         pools := [(asc ''reportingdb'',
                    \<lparr>pool_id = 0, pool_config = Own sample_config,
                     pool_key = asc ''reportingdb''\<rparr>)]\<rparr>) \<and>
   getDbConfig sample_lower [(asc ''maindb'', sample_config)] (Some (asc ''reportingdb'')) =
     Inl (asc ''[config] Invalid dbKey '' @ [39] @ asc ''reportingdb'' @ [39] @
          asc ''. Available: maindb'')"
proof -
  have 1: "js_get [(asc ''maindb'', sample_config)] (asc ''reportingdb'') = None"
    by code_simp
  have 2: "getPool good_driver [(asc ''maindb'', sample_config)] (Some (asc ''reportingdb''))
       (boot [(asc ''maindb'', sample_config)]) =
     (Inr (Own \<lparr>pool_id = 0, pool_config = Own sample_config, pool_key = asc ''reportingdb''\<rparr>),
      (boot [(asc ''maindb'', sample_config)])
        \<lparr>next_id := 1,
         pools := [(asc ''reportingdb'',
                    \<lparr>pool_id = 0, pool_config = Own sample_config,
                     pool_key = asc ''reportingdb''\<rparr>)]\<rparr>)"
    by code_simp
  have 3: "getDbConfig sample_lower [(asc ''maindb'', sample_config)] (Some (asc ''reportingdb'')) =
     Inl (asc ''[config] Invalid dbKey '' @ [39] @ asc ''reportingdb'' @ [39] @
          asc ''. Available: maindb'')"
    by code_simp
  from 1 2 3 show ?thesis by blast
qed



lemma getPool_configured_returns:
  assumes "map_of dbConfigs k = Some c" "k \<noteq> []" "js_get (pools s) k = None"
    and "connect drv (Own c) (next_id s) = None"
  shows "getPool drv dbConfigs (Some k) s =
     (Inr (Own \<lparr>pool_id = next_id s, pool_config = Own c, pool_key = k\<rparr>),
      s\<lparr>next_id := Suc (next_id s),
        pools := AList.update k \<lparr>pool_id = next_id s, pool_config = Own c, pool_key = k\<rparr> (pools s)\<rparr>)"
  using assms
  by (simp add: getPool_def resolve_config_def js_get_def prop_key_def or_default_def truthy_def
      Let_def)



section \<open>The tools (claims C5, C9 and C7)\<close>

lemma dbKey_ok_iff:
  "dbKeySchema k = [] \<longleftrightarrow> k \<noteq> [] \<and> length k \<le> 50 \<and> (\<forall>c\<in>set k. is_word c)"
  by (auto simp: dbKeySchema_def at_path_def check_min_def check_max_def check_regex_def
      rx_full_iff)

lemma sqlQuery_ok_iff: "sqlQuerySchema q = [] \<longleftrightarrow> 1 \<le> length q \<and> length q \<le> 10000"
  by (cases q) (auto simp: sqlQuerySchema_def at_path_def check_min_def check_max_def)

lemma query_input_ok_iff:
  "query_input_ok dbKey q \<longleftrightarrow>
     1 \<le> length q \<and> length q \<le> 10000 \<and>
     (truthy dbKey \<longrightarrow>
        length (the dbKey) \<le> 50 \<and> the dbKey \<noteq> [] \<and> (\<forall>c\<in>set (the dbKey). is_word c))"
proof (cases "truthy dbKey")
  case True
  then show ?thesis
    unfolding query_input_ok_def dbKeyQuerySchema_def
    by (simp only: if_True append_is_Nil_conv dbKey_ok_iff sqlQuery_ok_iff) blast
next
  case False
  then show ?thesis
    unfolding query_input_ok_def by (simp only: if_False sqlQuery_ok_iff) simp
qed

lemma executeSql_invalid:
  assumes "\<not> query_input_ok dbKey q"
  shows "\<exists>msg. executeSql U drv dbConfigs env q dbKey s =
     (error_result (asc ''Validation failed: '' @ msg), s)"
  using assms
  by (cases "truthy dbKey") (auto simp add: executeSql_def validate_def query_input_ok_def)

text \<open>
  C5. \<open>executeSql\<close> validates its input and then classifies the query. When the input
  passes validation (a query of 1 to 10000 code units and, if a key is given, a
  well-formed key) and the classifier calls the query unsafe, the result is the error
  result with the security block message (\<open>isError\<close> is true, nothing is thrown) and the
  state is unchanged: no pool is looked up or created and no statement is sent.
\<close>

theorem executeSql_blocks_unsafe:
  assumes "query_input_ok dbKey q" and "\<not> isSafeQuery U env q"
  shows "executeSql U drv dbConfigs env q dbKey s =
     (\<lparr>content_text =
         JObj [(asc ''error'',
                JStr (asc ''Query contains potentially unsafe operations and was blocked for security''))],
        isError = True\<rparr>, s)"
  using assms
  by (cases "truthy dbKey")
    (simp_all add: executeSql_def validate_def error_result_def query_input_ok_def
      blocked_message_def)

theorem executeSql_blocks_unsafe_witness:
  "query_input_ok None (asc ''DROP TABLE foo'') \<and>
   \<not> isSafeQuery sample_upper None (asc ''DROP TABLE foo'') \<and>
   executeSql sample_upper good_driver [(asc ''maindb'', sample_config)] None
       (asc ''DROP TABLE foo'') None (boot [(asc ''maindb'', sample_config)]) =
     (\<lparr>content_text =
         JObj [(asc ''error'',
                JStr (asc ''Query contains potentially unsafe operations and was blocked for security''))],
        isError = True\<rparr>, boot [(asc ''maindb'', sample_config)]) \<and>
   pools (boot [(asc ''maindb'', sample_config)]) = [] \<and>
   issued (boot [(asc ''maindb'', sample_config)]) = []"
proof -
  have u: "\<not> isSafeQuery sample_upper None (asc ''DROP TABLE foo'')" by code_simp
  have v: "query_input_ok None (asc ''DROP TABLE foo'')"
    by (simp add: query_input_ok_iff truthy_def asc_def)
  show ?thesis
    using executeSql_blocks_unsafe[OF v u, of good_driver "[(asc ''maindb'', sample_config)]"
        "boot [(asc ''maindb'', sample_config)]"] u v
    by (simp add: boot_def)
qed

text \<open>
  C9. When the input passes validation, a pool is acquired and the driver answers the
  column metadata statement for the table with zero rows, \<open>getTableSchema\<close> returns an
  error result whose message says that the table was not found or has no columns; the
  two cases are not told apart.
\<close>

theorem getTableSchema_not_found:
  assumes "table_input_ok dbKey t"
    and "getPool drv dbConfigs dbKey s = (Inr (Own p), s1)"
    and "run_query drv (length (issued s1)) p schema_sql [(asc ''tableName'', t)] = Inr res"
    and "recordset res = Some []"
  shows "fst (getTableSchema drv dbConfigs t dbKey s) =
     \<lparr>content_text =
        JObj [(asc ''error'',
               JStr (asc ''Table '' @ [39] @ t @ [39] @ asc '' not found or has no columns''))],
      isError = True\<rparr>"
  using assms
  by (cases "truthy dbKey")
    (simp_all add: getTableSchema_def table_input_ok_def validate_def query_def error_result_def
      not_found_message_def)

theorem getTableSchema_not_found_witness:
  "table_input_ok None (asc ''Orders'') \<and>
   getPool empty_driver [(asc ''maindb'', sample_config)] None
       (boot [(asc ''maindb'', sample_config)]) =
     (Inr (Own \<lparr>pool_id = 0, pool_config = Own sample_config, pool_key = asc ''default''\<rparr>),
      (boot [(asc ''maindb'', sample_config)])\<lparr>next_id := 1,
        pools := [(asc ''default'',
                   \<lparr>pool_id = 0, pool_config = Own sample_config, pool_key = asc ''default''\<rparr>)]\<rparr>) \<and>
   fst (getTableSchema empty_driver [(asc ''maindb'', sample_config)] (asc ''Orders'') None
          (boot [(asc ''maindb'', sample_config)])) =
     \<lparr>content_text =
        JObj [(asc ''error'',
               JStr (asc ''Table '' @ [39] @ asc ''Orders'' @ [39] @
                     asc '' not found or has no columns''))],
      isError = True\<rparr>"
proof -
  let ?cfg = "[(asc ''maindb'', sample_config)]"
  let ?p = "\<lparr>pool_id = 0, pool_config = Own sample_config, pool_key = asc ''default''\<rparr>"
  let ?s1 = "(boot ?cfg)\<lparr>next_id := 1, pools := [(asc ''default'', ?p)]\<rparr>"
  have "tableNameSchema (asc ''Orders'') = []" by code_simp
  then have v: "table_input_ok None (asc ''Orders'')"
    by (simp add: table_input_ok_def truthy_def)
  have g: "getPool empty_driver ?cfg None (boot ?cfg) = (Inr (Own ?p), ?s1)"
    by code_simp
  have q: "run_query empty_driver (length (issued ?s1)) ?p schema_sql
        [(asc ''tableName'', asc ''Orders'')] =
      Inr \<lparr>rowsAffected = [0], recordset = Some []\<rparr>"
    by (simp add: empty_driver_def)
  show ?thesis
    using getTableSchema_not_found[OF v g q] v g by simp
qed

subsection \<open>The connection status in every reachable state\<close>

lemma query_status: "connectionStatus (snd (query drv m sql inputs s)) = connectionStatus s"
  by (cases m) (simp_all add: query_def)

lemma pool_close_status: "connectionStatus (pool_close p s) = connectionStatus s"
  by (simp add: pool_close_def driver_close_def evict_def)

lemma executeSql_status:
  "connectionStatus (snd (executeSql U drv dbConfigs env q dbKey s)) = connectionStatus s"
proof -
  have a: "connectionStatus (snd (case getPool drv dbConfigs dbKey s of
               (Inl msg, s1) \<Rightarrow> (error_result msg, s1)
             | (Inr p, s1) \<Rightarrow> f p s1)) = connectionStatus s"
    if "\<And>p s1. connectionStatus (snd (f p s1)) = connectionStatus s1" for f :: "pool member \<Rightarrow> state \<Rightarrow> tool_result \<times> state"
    using getPool_status[of drv dbConfigs dbKey s] that
    by (cases "getPool drv dbConfigs dbKey s") (auto split: sum.splits)
  have b: "connectionStatus (snd (case query drv p q [] s1 of
                    (Inl msg, s2) \<Rightarrow> (error_result msg, s2)
                  | (Inr res, s2) \<Rightarrow> (g res, s2))) = connectionStatus s1" for p s1 and g :: "query_result \<Rightarrow> tool_result"
    using query_status[of drv p q "[]" s1]
    by (cases "query drv p q [] s1") (auto split: sum.splits)
  show ?thesis
    unfolding executeSql_def
    by (auto simp: validate_def a b split: sum.splits if_splits)
qed

subsection \<open>What holds in every reachable state\<close>

text \<open>
  Every operation changes the state only by calls of \<open>getPool\<close>, by recording a
  statement and by filling the resource cache. A property of states that these three
  keep is therefore kept by every operation.
\<close>

lemma query_inv:
  assumes "\<And>s x. I s \<Longrightarrow> I (s\<lparr>issued := x\<rparr>)" and "I s"
  shows "I (snd (query drv m sql inputs s))"
  using assms by (cases m) (simp_all add: query_def)

lemma executeSql_inv:
  assumes g: "\<And>drv k s. I s \<Longrightarrow> I (snd (getPool drv dbConfigs k s))"
    and i: "\<And>s x. I s \<Longrightarrow> I (s\<lparr>issued := x\<rparr>)" and s: "I s"
  shows "I (snd (executeSql U drv dbConfigs env q dbKey s))"
proof -
  have b: "I (snd (case query drv p q [] s1 of
                    (Inl msg, s2) \<Rightarrow> (error_result msg, s2)
                  | (Inr res, s2) \<Rightarrow> (h res, s2)))"
    if "I s1" for p s1 and h :: "query_result \<Rightarrow> tool_result"
    using query_inv[of I s1 drv p q "[]", OF i that]
    by (cases "query drv p q [] s1") (auto split: sum.splits)
  have a: "I (snd (case getPool drv dbConfigs dbKey s of
               (Inl msg, s1) \<Rightarrow> (error_result msg, s1)
             | (Inr p, s1) \<Rightarrow> f p s1))"
    if "\<And>p s1. I s1 \<Longrightarrow> I (snd (f p s1))"
    for f :: "pool member \<Rightarrow> state \<Rightarrow> tool_result \<times> state"
    using g[OF s, of drv dbKey] that
    by (cases "getPool drv dbConfigs dbKey s") (auto split: sum.splits)
  show ?thesis
    unfolding executeSql_def
    by (auto simp: validate_def s intro!: a b split: sum.splits if_splits)
qed

lemma getTableSchema_inv:
  assumes g: "\<And>drv k s. I s \<Longrightarrow> I (snd (getPool drv dbConfigs k s))"
    and i: "\<And>s x. I s \<Longrightarrow> I (s\<lparr>issued := x\<rparr>)" and s: "I s"
  shows "I (snd (getTableSchema drv dbConfigs t dbKey s))"
proof -
  have b: "I (snd (case query drv p sql inputs s1 of
                  (Inl msg, s2) \<Rightarrow> (error_result msg, s2)
                | (Inr res, s2) \<Rightarrow>
                    (case recordset res of
                       None \<Rightarrow> (error_result (undefined_read ''length''), s2)
                     | Some rs \<Rightarrow>
                         if length rs = 0 then (error_result (not_found_message v), s2)
                         else (h rs, s2))))"
    if "I s1" for p s1 sql inputs v and h :: "row list \<Rightarrow> tool_result"
    using query_inv[of I s1 drv p sql inputs, OF i that]
    by (cases "query drv p sql inputs s1") (auto split: sum.splits option.splits)
  have a: "I (snd (case getPool drv dbConfigs dbKey s of
               (Inl msg, s1) \<Rightarrow> (error_result msg, s1)
             | (Inr p, s1) \<Rightarrow> f p s1))"
    if "\<And>p s1. I s1 \<Longrightarrow> I (snd (f p s1))"
    for f :: "pool member \<Rightarrow> state \<Rightarrow> tool_result \<times> state"
    using g[OF s, of drv dbKey] that
    by (cases "getPool drv dbConfigs dbKey s") (auto split: sum.splits)
  show ?thesis
    unfolding getTableSchema_def
    by (auto simp: validate_def s intro!: a b split: sum.splits if_splits)
qed

lemma listResources_inv:
  assumes g: "\<And>drv k s. I s \<Longrightarrow> I (snd (getPool drv dbConfigs k s))"
    and i: "\<And>s x. I s \<Longrightarrow> I (s\<lparr>issued := x\<rparr>)"
    and c: "\<And>s x. I s \<Longrightarrow> I (s\<lparr>resourceCache := x\<rparr>)" and s: "I s"
  shows "I (snd (listResources drv dbConfigs dbKey s))"
proof -
  have b: "I (snd (case query drv p sql inputs s1 of
                       (Inl msg, s2) \<Rightarrow> (Inr [], s2)
                     | (Inr res, s2) \<Rightarrow>
                         (case recordset res of
                            None \<Rightarrow> (Inr [], s2)
                          | Some rs \<Rightarrow>
                              (Inr (map table_resource rs),
                               s2\<lparr>resourceCache :=
                                    AList.update k (map table_resource rs) (resourceCache s2)\<rparr>))))"
    if "I s1" for p s1 sql inputs k
    using query_inv[of I s1 drv p sql inputs, OF i that] c
    by (cases "query drv p sql inputs s1") (auto split: sum.splits option.splits)
  have a: "I (snd (case getPool drv dbConfigs dbKey s of
               (Inl msg, s1) \<Rightarrow> (Inr [], s1)
             | (Inr p, s1) \<Rightarrow> f p s1))"
    if "\<And>p s1. I s1 \<Longrightarrow> I (snd (f p s1))"
    for f :: "pool member \<Rightarrow> state \<Rightarrow> (jstring + resource list) \<times> state"
    using g[OF s, of drv dbKey] that
    by (cases "getPool drv dbConfigs dbKey s") (auto split: sum.splits)
  show ?thesis
    unfolding listResources_def Let_def
    by (auto simp: validate_def s intro!: a b split: sum.splits if_splits option.splits)
qed

lemma readResource_inv:
  assumes g: "\<And>drv k s. I s \<Longrightarrow> I (snd (getPool drv dbConfigs k s))"
    and i: "\<And>s x. I s \<Longrightarrow> I (s\<lparr>issued := x\<rparr>)" and s: "I s"
  shows "I (snd (readResource drv dbConfigs u dbKey s))"
proof -
  have b: "I (snd (case query drv p sql inputs s1 of
                            (Inl msg, s2) \<Rightarrow> (e msg, s2)
                          | (Inr res, s2) \<Rightarrow>
                              (case recordset res of
                                 None \<Rightarrow> (e0, s2)
                               | Some rs \<Rightarrow> (Inr (csv_text rs), s2))))"
    if "I s1" for p s1 sql inputs e0 and e :: "jstring \<Rightarrow> jstring + jstring"
    using query_inv[of I s1 drv p sql inputs, OF i that]
    by (cases "query drv p sql inputs s1") (auto split: sum.splits option.splits)
  have a: "I (snd (case getPool drv dbConfigs dbKey s of
               (Inl msg, s1) \<Rightarrow> (e msg, s1)
             | (Inr p, s1) \<Rightarrow> f p s1))"
    if "\<And>p s1. I s1 \<Longrightarrow> I (snd (f p s1))"
    for e :: "jstring \<Rightarrow> jstring + jstring"
      and f :: "pool member \<Rightarrow> state \<Rightarrow> (jstring + jstring) \<times> state"
    using g[OF s, of drv dbKey] that
    by (cases "getPool drv dbConfigs dbKey s") (auto split: sum.splits)
  show ?thesis
    unfolding readResource_def Let_def
    by (auto simp: validate_def s intro!: a b split: sum.splits if_splits)
qed

lemma get_resources_inv:
  assumes g: "\<And>drv k s. I s \<Longrightarrow> I (snd (getPool drv dbConfigs k s))"
    and i: "\<And>s x. I s \<Longrightarrow> I (s\<lparr>issued := x\<rparr>)"
    and c: "\<And>s x. I s \<Longrightarrow> I (s\<lparr>resourceCache := x\<rparr>)" and s: "I s"
  shows "I (snd (get_resources drv dbConfigs now dbKey s))"
  using listResources_inv[of I dbConfigs s drv dbKey, OF g i c s] s
  by (cases "listResources drv dbConfigs dbKey s")
    (auto simp: get_resources_def validate_def split: sum.splits if_splits)

lemma reachable_inv:
  assumes r: "reachable dbConfigs s"
    and b: "I (boot dbConfigs)"
    and g: "\<And>drv k s. I s \<Longrightarrow> I (snd (getPool drv dbConfigs k s))"
    and cl: "\<And>p s. I s \<Longrightarrow> I (pool_close p s)"
    and i: "\<And>s x. I s \<Longrightarrow> I (s\<lparr>issued := x\<rparr>)"
    and c: "\<And>s x. I s \<Longrightarrow> I (s\<lparr>resourceCache := x\<rparr>)"
  shows "I s"
  using r
proof (induction rule: reachable.induct)
  case r_boot
  show ?case by (rule b)
next
  case (r_getPool s drv dbKey)
  then show ?case by (intro g)
next
  case (r_close s p)
  then show ?case by (intro cl)
next
  case (r_executeSql s U drv env q dbKey)
  then show ?case by (intro executeSql_inv[of I, OF g i])
next
  case (r_getTableSchema s drv t dbKey)
  then show ?case by (intro getTableSchema_inv[of I, OF g i])
next
  case (r_listResources s drv dbKey)
  then show ?case by (intro listResources_inv[of I, OF g i c])
next
  case (r_readResource s drv u dbKey)
  then show ?case by (intro readResource_inv[of I, OF g i])
next
  case (r_get_resources s drv now dbKey)
  then show ?case by (intro get_resources_inv[of I, OF g i c])
qed

lemma reachable_status: "reachable dbConfigs s \<Longrightarrow> connectionStatus s = init_status dbConfigs"
  by (rule reachable_inv[where I = "\<lambda>s. connectionStatus s = init_status dbConfigs"])
    (simp_all add: boot_def getPool_status pool_close_def driver_close_def evict_def)

lemma reachable_cache_ok: "reachable dbConfigs s \<Longrightarrow> cache_ok s"
  by (rule reachable_inv[where I = cache_ok])
    (simp_all add: cache_ok_boot cache_ok_getPool cache_ok_pool_close, simp_all add: cache_ok_def)

subsection \<open>The list of databases (claim C7)\<close>

lemma sanitize_password: "sanitize (c\<lparr>password := x\<rparr>) = sanitize c"
  by (simp add: sanitize_def)

lemma insort_key_map:
  "insort_key f (g x) (map g xs) = map g (insort_key (\<lambda>y. f (g y)) x xs)"
  by (induction xs) simp_all

lemma sort_key_map: "sort_key f (map g xs) = map g (sort_key (\<lambda>y. f (g y)) xs)"
  by (induction xs) (simp_all add: insort_key_map)

lemma entries_map:
  assumes "\<And>kv. fst (g kv) = fst kv"
  shows "entries (map g obj) = map g (entries obj)"
  by (simp add: entries_def filter_map o_def assms sort_key_map)

lemma entries_entries: "entries (entries obj) = entries obj"
proof -
  define A where "A = sort_key (\<lambda>kv. index_value (fst kv)) (filter (\<lambda>kv. is_array_index (fst kv)) obj)"
  define B where "B = filter (\<lambda>kv. \<not> is_array_index (fst kv)) obj"
  have e: "entries obj = A @ B" by (simp add: entries_def A_def B_def)
  have "\<forall>kv\<in>set A. is_array_index (fst kv)" by (simp add: A_def)
  then have A1: "filter (\<lambda>kv. is_array_index (fst kv)) A = A"
    and A2: "filter (\<lambda>kv. \<not> is_array_index (fst kv)) A = []"
    by (simp_all add: filter_id_conv filter_empty_conv)
  have B1: "filter (\<lambda>kv. is_array_index (fst kv)) B = []"
    and B2: "filter (\<lambda>kv. \<not> is_array_index (fst kv)) B = B"
    by (simp_all add: B_def filter_empty_conv)
  have "sorted (map (\<lambda>kv. index_value (fst kv)) A)" by (simp add: A_def)
  then have A3: "sort_key (\<lambda>kv. index_value (fst kv)) A = A" by (rule sort_key_id_if_sorted)
  show ?thesis
    unfolding e by (simp add: entries_def[of "A @ B"] A1 A2 A3 B1 B2)
qed

lemma length_entries: "length (entries obj) = length obj"
  by (simp add: entries_def sum_length_filter_compl)

lemma own_keys_insertion_order:
  assumes "\<not> list_ex is_array_index (map fst obj)"
  shows "own_keys obj = map fst obj"
proof -
  from assms have n: "\<forall>kv\<in>set obj. \<not> is_array_index (fst kv)" by (auto simp: list_ex_iff)
  then have "filter (\<lambda>kv. is_array_index (fst kv)) obj = []"
    "filter (\<lambda>kv. \<not> is_array_index (fst kv)) obj = obj"
    by (simp_all add: filter_empty_conv filter_id_conv)
  then show ?thesis by (simp add: own_keys_def entries_def)
qed

lemma entries_with_passwords:
  "entries (with_passwords pw dbConfigs) = with_passwords pw (entries dbConfigs)"
  unfolding with_passwords_def by (rule entries_map) simp

lemma own_keys_with_passwords: "own_keys (with_passwords pw dbConfigs) = own_keys dbConfigs"
  by (simp add: own_keys_def entries_with_passwords) (simp add: with_passwords_def o_def)

lemma init_status_with_passwords:
  "init_status (with_passwords pw dbConfigs) = init_status dbConfigs"
  by (simp add: init_status_def own_keys_with_passwords)

lemma entries_init_status: "entries (init_status dbConfigs) = init_status dbConfigs"
proof -
  let ?g = "\<lambda>kc :: jstring \<times> db_config.
      (fst kc, \<lparr>lastConnected = None, lastError = None, status = asc ''initialized''\<rparr>)"
  have i: "init_status obj = map ?g (entries obj)" for obj
    by (simp add: init_status_def own_keys_def o_def)
  have "entries (map ?g (entries dbConfigs)) = map ?g (entries (entries dbConfigs))"
    by (rule entries_map) simp
  then show ?thesis by (simp add: i entries_entries)
qed

lemma listDatabases_reachable:
  assumes "reachable dbConfigs s"
  shows "listDatabases dbConfigs s =
     \<lparr>content_text =
        JObj [(asc ''availableDatabases'', JArr (map JStr (own_keys dbConfigs))),
              (asc ''configurations'',
                 JObj (map (\<lambda>kc. (fst kc, sanitize (snd kc))) (entries dbConfigs))),
              (asc ''connectionStatus'',
                 JObj (map (\<lambda>k. (k, JObj [(asc ''lastConnected'', JNull),
                                           (asc ''lastError'', JNull),
                                           (asc ''status'', JStr (asc ''initialized''))]))
                        (own_keys dbConfigs))),
              (asc ''count'', JNum (int (length dbConfigs))),
              (asc ''defaultDatabase'',
                 (case own_keys dbConfigs of [] \<Rightarrow> JUndefined | k # _ \<Rightarrow> JStr k))],
      isError = False\<rparr>"
proof -
  have st: "connectionStatus s = init_status dbConfigs" using assms by (rule reachable_status)
  have "getConnectionStatus s =
      JObj (map (\<lambda>k. (k, JObj [(asc ''lastConnected'', JNull), (asc ''lastError'', JNull),
                               (asc ''status'', JStr (asc ''initialized''))]))
             (own_keys dbConfigs))"
    unfolding getConnectionStatus_def st entries_init_status
    by (simp add: init_status_def status_json_def o_def)
  moreover have "length (own_keys dbConfigs) = length dbConfigs"
    by (simp add: own_keys_def length_entries)
  ultimately show ?thesis by (simp add: listDatabases_def Let_def)
qed

text \<open>
  C7, as the code has it. In every state the server can reach, the output of
  \<open>listDatabases\<close> does not depend on the configured passwords: it is the same,
  whatever the passwords are replaced with and whatever the calls and the answers of the
  driver were in the two runs; a sanitized configuration has no \<open>password\<close> property,
  and the connection status holds only the keys and the initial status. \<open>count\<close> is
  the number of configured keys. \<open>availableDatabases\<close> lists the keys in the order of
  \<open>Object.keys\<close>, and \<open>defaultDatabase\<close> is the first key of that order: this is the
  order of insertion when no key is an array index; a key that is an array index comes
  before the others, in numeric order.
\<close>

theorem listDatabases_no_password:
  assumes "reachable dbConfigs s" and "reachable (with_passwords pw dbConfigs) s'"
  shows "listDatabases (with_passwords pw dbConfigs) s' = listDatabases dbConfigs s \<and>
     field ''password'' (sanitize c) = None \<and>
     isError (listDatabases dbConfigs s) = False \<and>
     field ''availableDatabases'' (content_text (listDatabases dbConfigs s)) =
       Some (JArr (map JStr (own_keys dbConfigs))) \<and>
     field ''configurations'' (content_text (listDatabases dbConfigs s)) =
       Some (JObj (map (\<lambda>kc. (fst kc, sanitize (snd kc))) (entries dbConfigs))) \<and>
     field ''connectionStatus'' (content_text (listDatabases dbConfigs s)) =
       Some (JObj (map (\<lambda>k. (k, JObj [(asc ''lastConnected'', JNull),
                                       (asc ''lastError'', JNull),
                                       (asc ''status'', JStr (asc ''initialized''))]))
                    (own_keys dbConfigs))) \<and>
     field ''count'' (content_text (listDatabases dbConfigs s)) =
       Some (JNum (int (length dbConfigs))) \<and>
     (dbConfigs \<noteq> [] \<longrightarrow>
        field ''defaultDatabase'' (content_text (listDatabases dbConfigs s)) =
          Some (JStr (hd (own_keys dbConfigs)))) \<and>
     (\<not> list_ex is_array_index (map fst dbConfigs) \<longrightarrow> own_keys dbConfigs = map fst dbConfigs)"
proof -
  note out = listDatabases_reachable[OF assms(1)]
  note out' = listDatabases_reachable[OF assms(2)]
  have "map (\<lambda>kc. (fst kc, sanitize (snd kc))) (entries (with_passwords pw dbConfigs)) =
      map (\<lambda>kc. (fst kc, sanitize (snd kc))) (entries dbConfigs)"
    by (simp add: entries_with_passwords) (simp add: with_passwords_def sanitize_password o_def)
  moreover have "length (with_passwords pw dbConfigs) = length dbConfigs"
    by (simp add: with_passwords_def)
  ultimately have same: "listDatabases (with_passwords pw dbConfigs) s' = listDatabases dbConfigs s"
    unfolding out out' by (simp add: own_keys_with_passwords)
  have pw: "field ''password'' (sanitize c) = None"
    by (simp add: field_def sanitize_def asc_eq_iff)
  have keys: "field ''availableDatabases'' (content_text (listDatabases dbConfigs s)) =
       Some (JArr (map JStr (own_keys dbConfigs)))"
    unfolding out by (simp add: field_def asc_eq_iff)
  have confs: "field ''configurations'' (content_text (listDatabases dbConfigs s)) =
       Some (JObj (map (\<lambda>kc. (fst kc, sanitize (snd kc))) (entries dbConfigs)))"
    unfolding out by (simp add: field_def asc_eq_iff)
  have stat: "field ''connectionStatus'' (content_text (listDatabases dbConfigs s)) =
       Some (JObj (map (\<lambda>k. (k, JObj [(asc ''lastConnected'', JNull),
                                       (asc ''lastError'', JNull),
                                       (asc ''status'', JStr (asc ''initialized''))]))
                    (own_keys dbConfigs)))"
    unfolding out by (simp add: field_def asc_eq_iff)
  have cnt: "field ''count'' (content_text (listDatabases dbConfigs s)) =
       Some (JNum (int (length dbConfigs)))"
    unfolding out by (simp add: field_def asc_eq_iff)
  have dflt: "field ''defaultDatabase'' (content_text (listDatabases dbConfigs s)) =
          Some (JStr (hd (own_keys dbConfigs)))" if "dbConfigs \<noteq> []"
  proof -
    from that have "own_keys dbConfigs \<noteq> []" by (simp add: own_keys_def entries_Nil)
    then obtain k ks where "own_keys dbConfigs = k # ks" by (cases "own_keys dbConfigs") auto
    then show ?thesis unfolding out by (simp add: field_def asc_eq_iff)
  qed
  have err: "isError (listDatabases dbConfigs s) = False" unfolding out by simp
  show ?thesis
    using same pw err keys confs stat cnt dflt own_keys_insertion_order by blast
qed

theorem listDatabases_no_password_witness:
  "reachable [(asc ''maindb'', sample_config), (asc ''reportingdb'', sample_config)]
     (snd (getPool good_driver [(asc ''maindb'', sample_config), (asc ''reportingdb'', sample_config)]
             (Some (asc ''maindb''))
             (boot [(asc ''maindb'', sample_config), (asc ''reportingdb'', sample_config)]))) \<and>
   listDatabases
     (with_passwords (\<lambda>kc. asc ''other'')
        [(asc ''maindb'', sample_config), (asc ''reportingdb'', sample_config)])
     (boot (with_passwords (\<lambda>kc. asc ''other'')
        [(asc ''maindb'', sample_config), (asc ''reportingdb'', sample_config)])) =
   listDatabases [(asc ''maindb'', sample_config), (asc ''reportingdb'', sample_config)]
     (snd (getPool good_driver [(asc ''maindb'', sample_config), (asc ''reportingdb'', sample_config)]
             (Some (asc ''maindb''))
             (boot [(asc ''maindb'', sample_config), (asc ''reportingdb'', sample_config)]))) \<and>
   field ''availableDatabases''
     (content_text
        (listDatabases [(asc ''maindb'', sample_config), (asc ''reportingdb'', sample_config)]
           (boot [(asc ''maindb'', sample_config), (asc ''reportingdb'', sample_config)]))) =
     Some (JArr [JStr (asc ''maindb''), JStr (asc ''reportingdb'')]) \<and>
   field ''count''
     (content_text
        (listDatabases [(asc ''maindb'', sample_config), (asc ''reportingdb'', sample_config)]
           (boot [(asc ''maindb'', sample_config), (asc ''reportingdb'', sample_config)]))) =
     Some (JNum 2) \<and>
   field ''defaultDatabase''
     (content_text
        (listDatabases [(asc ''maindb'', sample_config), (asc ''reportingdb'', sample_config)]
           (boot [(asc ''maindb'', sample_config), (asc ''reportingdb'', sample_config)]))) =
     Some (JStr (asc ''maindb''))"
proof -
  let ?cfg = "[(asc ''maindb'', sample_config), (asc ''reportingdb'', sample_config)]"
  let ?s = "snd (getPool good_driver ?cfg (Some (asc ''maindb'')) (boot ?cfg))"
  have r0: "reachable ?cfg (boot ?cfg)" by (rule r_boot)
  then have r1: "reachable ?cfg ?s" by (rule r_getPool)
  have r2: "reachable (with_passwords (\<lambda>kc. asc ''other'') ?cfg)
      (boot (with_passwords (\<lambda>kc. asc ''other'') ?cfg))"
    by (rule r_boot)
  have k: "own_keys ?cfg = [asc ''maindb'', asc ''reportingdb'']" by code_simp
  have n: "\<not> list_ex is_array_index (map fst ?cfg)" by code_simp
  show ?thesis
    using listDatabases_no_password[OF r1 r2, of sample_config]
      listDatabases_no_password[OF r0 r2, of sample_config] r1 k n
    by simp
qed

text \<open>
  The keys \<open>2\<close> and \<open>1\<close>, configured in this order (the variables \<open>MSSQL_2_DATABASE\<close> and
  \<open>MSSQL_1_DATABASE\<close> of the environment), are listed as \<open>1\<close>, \<open>2\<close>, and the default
  database is \<open>1\<close>, not the key configured first.
\<close>

theorem listDatabases_order_counterexample:
  "map fst [(asc ''2'', sample_config), (asc ''1'', sample_config)] = [asc ''2'', asc ''1''] \<and>
   field ''availableDatabases''
     (content_text
        (listDatabases [(asc ''2'', sample_config), (asc ''1'', sample_config)]
           (boot [(asc ''2'', sample_config), (asc ''1'', sample_config)]))) =
     Some (JArr [JStr (asc ''1''), JStr (asc ''2'')]) \<and>
   field ''defaultDatabase''
     (content_text
        (listDatabases [(asc ''2'', sample_config), (asc ''1'', sample_config)]
           (boot [(asc ''2'', sample_config), (asc ''1'', sample_config)]))) =
     Some (JStr (asc ''1''))"
proof -
  let ?cfg = "[(asc ''2'', sample_config), (asc ''1'', sample_config)]"
  have k: "own_keys ?cfg = [asc ''1'', asc ''2'']" by code_simp
  show ?thesis
    unfolding listDatabases_reachable[OF r_boot] k
    by (simp add: field_def asc_eq_iff)
qed

section \<open>The resources (claims C6, C10 and C8)\<close>

lemma listResources_never_throws: "\<exists>rs. fst (listResources drv dbConfigs dbKey s) = Inr rs"
  by (auto simp: listResources_def Let_def split: option.splits sum.splits prod.splits)

lemma listResources_hides_failure:
  assumes "map_of (resourceCache s) (or_default dbKey) = None"
    and "\<not> truthy dbKey \<or> dbKeySchema (the dbKey) = []"
    and "fst (getPool drv dbConfigs dbKey s) = Inl msg"
  shows "fst (listResources drv dbConfigs dbKey s) = Inr []"
    and "fst (get_resources drv dbConfigs now dbKey s) = \<lparr>status_code = 200, body = JArr []\<rparr>"
  using assms
  by (auto simp: listResources_def get_resources_def validate_def Let_def
      split: option.splits sum.splits prod.splits)

text \<open>
  C6 at a failing input: no database can be reached, and \<open>listResources\<close> answers with the
  empty list; the route \<open>GET /resources\<close> sends it with status 200. The sibling operation
  \<open>executeSql\<close> reports the same failure as an error result that carries the driver's
  message.
\<close>

theorem listResources_swallows_failure:
  "fst (getPool down_driver [(asc ''maindb'', sample_config)] None
          (boot [(asc ''maindb'', sample_config)])) =
     Inl (asc ''Connection error'') \<and>
   fst (listResources down_driver [(asc ''maindb'', sample_config)] None
          (boot [(asc ''maindb'', sample_config)])) = Inr [] \<and>
   fst (get_resources down_driver [(asc ''maindb'', sample_config)]
          (asc ''2026-01-01T00:00:00.000Z'') None (boot [(asc ''maindb'', sample_config)])) =
     \<lparr>status_code = 200, body = JArr []\<rparr> \<and>
   fst (executeSql sample_upper down_driver [(asc ''maindb'', sample_config)] None
          (asc ''SELECT 1'') None (boot [(asc ''maindb'', sample_config)])) =
     \<lparr>content_text = JObj [(asc ''error'', JStr (asc ''Connection error''))], isError = True\<rparr>"
proof -
  let ?cfg = "[(asc ''maindb'', sample_config)]"
  have g: "getPool down_driver ?cfg None (boot ?cfg) =
      (Inl (asc ''Connection error''), (boot ?cfg)\<lparr>next_id := 1\<rparr>)"
    by code_simp
  have l: "fst (listResources down_driver ?cfg None (boot ?cfg)) = Inr []"
    using g by (simp add: listResources_def or_default_def truthy_def boot_def)
  have h: "fst (get_resources down_driver ?cfg (asc ''2026-01-01T00:00:00.000Z'') None
      (boot ?cfg)) = \<lparr>status_code = 200, body = JArr []\<rparr>"
    using l by (auto simp: get_resources_def truthy_def split: prod.splits sum.splits)
  have safe: "isSafeQuery sample_upper None (asc ''SELECT 1'')" by code_simp
  have ok: "query_input_ok None (asc ''SELECT 1'')"
    by (simp add: query_input_ok_iff truthy_def asc_def)
  have e: "fst (executeSql sample_upper down_driver ?cfg None (asc ''SELECT 1'') None
      (boot ?cfg)) =
      \<lparr>content_text = JObj [(asc ''error'', JStr (asc ''Connection error''))], isError = True\<rparr>"
    using g safe ok
    by (simp add: executeSql_def truthy_def validate_def query_input_ok_def error_result_def)
  from g l h e show ?thesis by simp
qed

lemma uri_rx_iff:
  "rx_full False uri_rx u \<longleftrightarrow>
     (\<exists>t. u = asc ''mssql://'' @ t @ asc ''/data'' \<and> t \<noteq> [] \<and> (\<forall>c\<in>set t. is_word c))"
proof -
  define a where "a = ''mssql://''"
  define b where "b = ''/data''"
  have "rx_full False (Seq (Lit a) (Seq (Plus Word) (Lit b))) u \<longleftrightarrow>
     (\<exists>t. u = asc a @ t @ asc b \<and> t \<noteq> [] \<and> (\<forall>c\<in>set t. is_word c))"
    unfolding rx_full_iff lang_Seq_iff lang_Lit_cs lang_Plus_iff in_class.simps by blast
  then show ?thesis unfolding a_def b_def uri_rx_def .
qed

lemma split_on_prefix: "sep \<notin> set t \<Longrightarrow> split_on sep (t @ sep # r) = t # split_on sep r"
  by (induction t) (auto split: list.splits)

lemma slash_not_word: "\<not> is_word 47"
  by (simp add: is_word_def)

lemma uri_table:
  assumes "\<forall>c\<in>set t. is_word c"
  shows "(case split_on 47 (drop 8 (asc ''mssql://'' @ t @ asc ''/data'')) of
            [] \<Rightarrow> asc ''undefined'' | x # _ \<Rightarrow> x) = t"
proof -
  have "47 \<notin> set t" using assms slash_not_word by blast
  then have "split_on 47 (t @ 47 # asc ''data'') = t # split_on 47 (asc ''data'')"
    by (rule split_on_prefix)
  moreover have "drop 8 (asc ''mssql://'' @ t @ asc ''/data'') = t @ 47 # asc ''data''"
    by (simp add: asc_def)
  ultimately show ?thesis by (simp only: list.case)
qed

lemma readResource_invalid:
  "\<not> rx_full False uri_rx u \<Longrightarrow> snd (readResource drv dbConfigs u dbKey s) = s"
  by (simp add: readResource_def resourceUriSchema_def check_regex_def validate_def)

lemma readResource_valid:
  assumes "\<forall>c\<in>set t. is_word c" "t \<noteq> []"
  shows "issued (snd (readResource drv dbConfigs (asc ''mssql://'' @ t @ asc ''/data'') dbKey s)) =
       issued s \<or>
     (\<exists>pid. issued (snd (readResource drv dbConfigs (asc ''mssql://'' @ t @ asc ''/data'') dbKey s)) =
        issued s @ [(pid, select_top t, [])])"
proof -
  let ?u = "asc ''mssql://'' @ t @ asc ''/data''"
  have full: "rx_full False uri_rx ?u" using assms unfolding uri_rx_iff by blast
  have sw: "startsWith ?u (asc ''mssql://'')" by (simp add: startsWith_def asc_def)
  have tbl: "(case split_on 47 (drop 8 ?u) of [] \<Rightarrow> asc ''undefined'' | x # _ \<Rightarrow> x) = t"
    using assms(1) by (rule uri_table)
  have v: "validate (resourceUriSchema ?u) ?u = Inr ?u"
    using full by (simp add: resourceUriSchema_def check_regex_def validate_def)
  show ?thesis
  proof (cases "if truthy dbKey then validate (dbKeySchema (the dbKey)) () else Inr ()")
    case (Inl msg)
    then show ?thesis unfolding readResource_def Let_def v by simp
  next
    case (Inr x)
    obtain r s1 where g: "getPool drv dbConfigs dbKey s = (r, s1)"
      by (cases "getPool drv dbConfigs dbKey s")
    then have i1: "issued s1 = issued s" using getPool_issued[of drv dbConfigs dbKey s] by simp
    show ?thesis
    proof (cases r)
      case (Inl msg)
      then show ?thesis unfolding readResource_def Let_def v using Inr sw g i1 by simp
    next
      case m: (Inr m)
      show ?thesis
      proof (cases m)
        case (Own p)
        have "issued (snd (readResource drv dbConfigs ?u dbKey s)) =
            issued s @ [(pool_id p, select_top t, [])]"
          unfolding readResource_def Let_def v using Inr sw g i1 m Own tbl
          by (simp add: query_def split: sum.splits option.splits)
        then show ?thesis by blast
      next
        case (Inherited k)
        have "issued (snd (readResource drv dbConfigs ?u dbKey s)) = issued s"
          unfolding readResource_def Let_def v using Inr sw g i1 m Inherited
          by (simp add: query_def)
        then show ?thesis by blast
      qed
    qed
  qed
qed

text \<open>
  C10. A call of \<open>readResource\<close> sends no statement, or exactly one: the text
  \<open>SELECT TOP 100 * FROM [t]\<close>, with no inputs, where the URI is \<open>mssql://t/data\<close> and \<open>t\<close>
  is a non-empty word over \<open>[a-zA-Z0-9_]\<close>.
\<close>

theorem readResource_statement:
  "issued (snd (readResource drv dbConfigs u dbKey s)) = issued s \<or>
   (\<exists>t pid. u = asc ''mssql://'' @ t @ asc ''/data'' \<and> t \<noteq> [] \<and> (\<forall>c\<in>set t. is_word c) \<and>
      issued (snd (readResource drv dbConfigs u dbKey s)) =
        issued s @ [(pid, asc ''SELECT TOP 100 * FROM ['' @ t @ asc '']'', [])])"
proof (cases "rx_full False uri_rx u")
  case False
  then show ?thesis by (simp add: readResource_invalid)
next
  case True
  then obtain t where t: "u = asc ''mssql://'' @ t @ asc ''/data''" "t \<noteq> []"
      "\<forall>c\<in>set t. is_word c"
    unfolding uri_rx_iff by blast
  from readResource_valid[OF t(3,2), of drv dbConfigs dbKey s] t
  show ?thesis unfolding select_top_def by blast
qed

theorem readResource_statement_witness:
  "issued (snd (readResource good_driver [(asc ''maindb'', sample_config)]
     (asc ''mssql://Orders/data'') None (boot [(asc ''maindb'', sample_config)]))) =
     [(0, asc ''SELECT TOP 100 * FROM [Orders]'', [])] \<and>
   issued (snd (readResource good_driver [(asc ''maindb'', sample_config)]
     (asc ''mssql://Orders]; DROP TABLE x--/data'') None
     (boot [(asc ''maindb'', sample_config)]))) = []"
proof -
  let ?cfg = "[(asc ''maindb'', sample_config)]"
  have i: "issued (boot ?cfg) = []" by (simp add: boot_def)
  have w: "\<not> rx_full False uri_rx (asc ''mssql://Orders]; DROP TABLE x--/data'')" by code_simp
  have a: "issued (snd (readResource good_driver ?cfg (asc ''mssql://Orders/data'') None
      (boot ?cfg))) = [(0, asc ''SELECT TOP 100 * FROM [Orders]'', [])]"
    by code_simp
  have b: "issued (snd (readResource good_driver ?cfg
     (asc ''mssql://Orders]; DROP TABLE x--/data'') None (boot ?cfg))) = []"
    using readResource_statement[of good_driver ?cfg
        "asc ''mssql://Orders]; DROP TABLE x--/data''" None "boot ?cfg"]
      readResource_invalid[OF w, of good_driver ?cfg None "boot ?cfg"] i
    by simp
  from a b show ?thesis by simp
qed













end
